theory Spec2Isabelle
  imports Main "HOL-Library.Multiset"
begin

section \<open>The Cinder collector: data model\<close>

text \<open>
  The embedding follows \<^verbatim>\<open>collector/collector.go\<close>. The collector keeps three Go maps
  and the dispatched service between calls. The collaborators it talks to (the identity
  service, the tenant directory, the three category fetchers, the namespace codec, the
  clock) are not part of that file; they are gathered in a record of functions, the
  \<open>world\<close>, so that every statement below holds for whatever they answer. Every
  collaborator that goes over the network gets the list of the network calls made so far,
  so its answer may change from one call to the next.
\<close>

text \<open>\<^verbatim>\<open>*gophercloud.ProviderClient\<close> and \<^verbatim>\<open>services.Service\<close>: opaque handles.\<close>

datatype provider = Provider nat

datatype service = Service nat

text \<open>
  Go \<^verbatim>\<open>error\<close> values: the one the configuration helper gives for a missing item, the
  one \<^verbatim>\<open>CollectMetrics\<close> builds itself (line 117, with the offending length), and those
  coming from the collaborators, which the code passes on untouched.
\<close>

datatype go_error =
    ConfigItemMissing string
  | IncorrectNamespaceLength nat
  | External string

text \<open>Run-time panics the code can raise: \<^verbatim>\<open>metricTypes[0]\<close> and \<^verbatim>\<open>x.(string)\<close>.\<close>

datatype panic = IndexOutOfRange | TypeAssertion

datatype 'a result = Ok 'a | Fail go_error | Panic panic

text \<open>Configuration values as the plugin host hands them over.\<close>

datatype cfg_value = CfgString string | CfgInteger int | CfgBool bool

type_synonym config = "string \<rightharpoonup> cfg_value"

text \<open>
  \<^verbatim>\<open>plugin.MetricType\<close>, with the four fields the code reads or sets. \<open>mt_data\<close> is
  \<^verbatim>\<open>interface{}\<close>: \<open>None\<close> is \<^verbatim>\<open>nil\<close>.
\<close>

record 'd metric_type =
  mt_namespace :: "string list"
  mt_config :: config
  mt_timestamp :: nat
  mt_data :: "'d option"

record credentials =
  endpoint :: string
  user :: string
  password :: string
  domain_name :: string
  domain_id :: string

text \<open>
  The network calls, in the order they are made, each with the error it came back with
  (\<open>None\<close> for \<^verbatim>\<open>nil\<close>).
\<close>

datatype event =
    EvGetTenants credentials "go_error option"
  | EvAuthenticate credentials string "go_error option"
  | EvGetVolumes "provider option" "go_error option"
  | EvGetSnapshots "provider option" "go_error option"
  | EvGetLimits string "provider option" "go_error option"

text \<open>
  The collaborators. The fetchers return a value and an error, and the code uses the value
  also when the error is set, so they give a pair here. \<open>Elements_order\<close> and
  \<open>completion_order\<close> are the two choices the Go runtime makes: the order in which a
  map-backed string set is ranged over, and the order in which the goroutines of a phase
  finish.
\<close>

record ('l, 'v, 's, 'd) world =
  GetTenants :: "event list \<Rightarrow> credentials \<Rightarrow> go_error + (string \<times> string) list"
  Authenticate :: "event list \<Rightarrow> credentials \<Rightarrow> string \<Rightarrow> go_error + provider"
  Dispatch :: "provider \<Rightarrow> service"
  GetVolumes :: "event list \<Rightarrow> service option \<Rightarrow> provider option \<Rightarrow> (string \<times> 'v) list \<times> go_error option"
  GetSnapshots :: "event list \<Rightarrow> service option \<Rightarrow> provider option \<Rightarrow> (string \<times> 's) list \<times> go_error option"
  GetLimits :: "event list \<Rightarrow> service option \<Rightarrow> provider option \<Rightarrow> 'l \<times> go_error option"
  GetValueByNamespace :: "'s \<times> 'v \<times> 'l \<Rightarrow> string list \<Rightarrow> 'd option"
  Now :: "event list \<Rightarrow> nat \<Rightarrow> nat"
  Elements_order :: "event list \<Rightarrow> nat list"
  completion_order :: "event list \<Rightarrow> nat list"

text \<open>
  \<^verbatim>\<open>type collector struct\<close> (lines 266-272). \<open>allTenants\<close> is an association list
  because the code takes its length; the other two maps are only looked up and stored to.
  \<open>service\<close> is \<open>None\<close> until the first dispatch, \<open>common\<close> says whether the
  \<^verbatim>\<open>Commoner\<close> has been set.
\<close>

record 'l collector =
  allTenants :: "(string \<times> string) list"
  service :: "service option"
  common :: bool
  allLimits :: "string \<rightharpoonup> 'l"
  providers :: "string \<rightharpoonup> provider"

text \<open>\<^verbatim>\<open>New()\<close> (lines 47-56).\<close>

definition New :: "'l collector" where
  "New = \<lparr>allTenants = [], service = None, common = False,
          allLimits = Map.empty, providers = Map.empty\<rparr>"

section \<open>Helpers of the libraries the code calls\<close>

text \<open>
  \<^verbatim>\<open>config.GetConfigItem\<close> and \<^verbatim>\<open>config.GetConfigItems\<close>: the value of a key, an
  error for a key that is not there; the second stops at the first missing name.
\<close>

definition GetConfigItem :: "config \<Rightarrow> string \<Rightarrow> go_error + cfg_value" where
  "GetConfigItem cfg name =
     (case cfg name of None \<Rightarrow> Inl (ConfigItemMissing name) | Some v \<Rightarrow> Inr v)"

fun GetConfigItems :: "config \<Rightarrow> string list \<Rightarrow> go_error + (string \<rightharpoonup> cfg_value)" where
  "GetConfigItems cfg [] = Inr Map.empty"
| "GetConfigItems cfg (name # names) =
     (case GetConfigItem cfg name of
        Inl e \<Rightarrow> Inl e
      | Inr item \<Rightarrow>
          (case GetConfigItems cfg names of
             Inl e \<Rightarrow> Inl e
           | Inr items \<Rightarrow> Inr (items(name \<mapsto> item))))"

text \<open>The type assertion \<^verbatim>\<open>x.(string)\<close>: \<open>None\<close> where Go panics.\<close>

fun as_string :: "cfg_value option \<Rightarrow> string option" where
  "as_string (Some (CfgString s)) = Some s"
| "as_string _ = None"

text \<open>\<^verbatim>\<open>str.Contains(slice, lookup)\<close>: some element of the slice equals \<open>lookup\<close>.\<close>

definition Contains :: "string list \<Rightarrow> string \<Rightarrow> bool" where
  "Contains slice lookup = (lookup \<in> set slice)"

text \<open>
  \<^verbatim>\<open>str.StringSet\<close>: a set of strings backed by a Go map. It is kept here as the list of
  its members in the order they came in; \<open>Elements\<close> hands them out in the order the
  runtime picks, given as a list of positions to take next (see \<open>pick_order\<close>).
\<close>

definition Add :: "string \<Rightarrow> string list \<Rightarrow> string list" where
  "Add el s = (if el \<in> set s then s else s @ [el])"

fun pick_order :: "nat list \<Rightarrow> 'a list \<Rightarrow> 'a list" where
  "pick_order ks [] = []"
| "pick_order [] xs = xs"
| "pick_order (k # ks) xs =
     (let i = k mod length xs
      in xs ! i # pick_order ks (take i xs @ drop (Suc i) xs))"

definition Elements :: "nat list \<Rightarrow> string list \<Rightarrow> string list" where
  "Elements order s = pick_order order s"

text \<open>A Go map read: the zero value for a key that is not there.\<close>

definition lookup0 :: "('k \<rightharpoonup> 'a::zero) \<Rightarrow> 'k \<Rightarrow> 'a" where
  "lookup0 m k = (case m k of None \<Rightarrow> 0 | Some v \<Rightarrow> v)"

definition tenant_name :: "(string \<times> string) list \<Rightarrow> string \<Rightarrow> string" where
  "tenant_name tenants tenantId =
     (case map_of tenants tenantId of None \<Rightarrow> [] | Some n \<Rightarrow> n)"

text \<open>Receiving from a closed channel: the oldest buffered value, or \<^verbatim>\<open>nil\<close>.\<close>

definition receive :: "go_error list \<Rightarrow> go_error option" where
  "receive errChn = (case errChn of [] \<Rightarrow> None | e # _ \<Rightarrow> Some e)"

definition send :: "go_error option \<Rightarrow> go_error list \<Rightarrow> go_error list" where
  "send err errChn = (case err of None \<Rightarrow> errChn | Some e \<Rightarrow> errChn @ [e])"

section \<open>Credentials, the session cache and the tenant directory\<close>

text \<open>
  Lines 279-294 of \<^verbatim>\<open>authenticate\<close> and lines 312-329 of \<^verbatim>\<open>getTenants\<close> are the same
  text: the three required items, then the two optional ones, each asserted to be a string.
\<close>

definition optional_item :: "config \<Rightarrow> string \<Rightarrow> string result" where
  "optional_item cfg name =
     (case GetConfigItem cfg name of
        Inl e \<Rightarrow> Ok []
      | Inr v \<Rightarrow> (case as_string (Some v) of None \<Rightarrow> Panic TypeAssertion | Some s \<Rightarrow> Ok s))"

definition read_credentials :: "config \<Rightarrow> credentials result" where
  "read_credentials cfg =
     (case GetConfigItems cfg [''endpoint'', ''user'', ''password''] of
        Inl e \<Rightarrow> Fail e
      | Inr items \<Rightarrow>
          (case as_string (items ''endpoint'') of
             None \<Rightarrow> Panic TypeAssertion
           | Some ep \<Rightarrow>
          (case as_string (items ''user'') of
             None \<Rightarrow> Panic TypeAssertion
           | Some u \<Rightarrow>
          (case as_string (items ''password'') of
             None \<Rightarrow> Panic TypeAssertion
           | Some pw \<Rightarrow>
          (case optional_item cfg ''domain_name'' of
             Panic p \<Rightarrow> Panic p
           | Fail e \<Rightarrow> Fail e
           | Ok dn \<Rightarrow>
          (case optional_item cfg ''domain_id'' of
             Panic p \<Rightarrow> Panic p
           | Fail e \<Rightarrow> Fail e
           | Ok di \<Rightarrow>
               Ok \<lparr>endpoint = ep, user = u, password = pw,
                   domain_name = dn, domain_id = di\<rparr>))))))"

text \<open>
  \<^verbatim>\<open>authenticate\<close> (lines 274-309). The result is the returned error, the collector as
  the call leaves it, and the network calls so far.
\<close>

definition authenticate ::
  "('l, 'v, 's, 'd) world \<Rightarrow> config \<Rightarrow> string \<Rightarrow> 'l collector \<Rightarrow> event list
     \<Rightarrow> unit result \<times> 'l collector \<times> event list" where
  "authenticate w cfg tenant c tr =
     (case providers c tenant of
        Some found \<Rightarrow> (Ok (), c, tr)
      | None \<Rightarrow>
          (case read_credentials cfg of
             Panic p \<Rightarrow> (Panic p, c, tr)
           | Fail e \<Rightarrow> (Fail e, c, tr)
           | Ok creds \<Rightarrow>
               (case Authenticate w tr creds tenant of
                  Inl e \<Rightarrow> (Fail e, c, tr @ [EvAuthenticate creds tenant (Some e)])
                | Inr provider \<Rightarrow>
                    (Ok (),
                     c\<lparr>providers := (providers c)(tenant \<mapsto> provider),
                       service := Some (Dispatch w provider),
                       common := True\<rparr>,
                     tr @ [EvAuthenticate creds tenant None]))))"

text \<open>\<^verbatim>\<open>getTenants\<close> (lines 311-339).\<close>

definition getTenants ::
  "('l, 'v, 's, 'd) world \<Rightarrow> config \<Rightarrow> event list
     \<Rightarrow> (string \<times> string) list result \<times> event list" where
  "getTenants w cfg tr =
     (case read_credentials cfg of
        Panic p \<Rightarrow> (Panic p, tr)
      | Fail e \<Rightarrow> (Fail e, tr)
      | Ok creds \<Rightarrow>
          (case GetTenants w tr creds of
             Inl e \<Rightarrow> (Fail e, tr @ [EvGetTenants creds (Some e)])
           | Inr tenants \<Rightarrow> (Ok tenants, tr @ [EvGetTenants creds None])))"

section \<open>CollectMetrics, phase by phase\<close>

text \<open>
  The collection plan: the tenants asked for and the three category flags
  (\<^verbatim>\<open>collectTenants\<close>, \<^verbatim>\<open>collectLimits\<close>, \<^verbatim>\<open>collectVolumes\<close>, \<^verbatim>\<open>collectSnapshots\<close>,
  lines 112-113).
\<close>

record plan =
  collectTenants :: "string list"
  collectLimits :: bool
  collectVolumes :: bool
  collectSnapshots :: bool

definition empty_plan :: plan where
  "empty_plan = \<lparr>collectTenants = [], collectLimits = False,
                 collectVolumes = False, collectSnapshots = False\<rparr>"

text \<open>The loop over the requested metric types (lines 114-130).\<close>

fun scan_requests :: "'d metric_type list \<Rightarrow> plan \<Rightarrow> plan result" where
  "scan_requests [] pl = Ok pl"
| "scan_requests (metricType # rest) pl =
     (let namespace = mt_namespace metricType
      in if length namespace < 6
         then Fail (IncorrectNamespaceLength (length namespace))
         else
           let tenant = namespace ! 3;
               pl1 = pl\<lparr>collectTenants := Add tenant (collectTenants pl)\<rparr>;
               pl2 = (if Contains namespace ''limits'' then pl1\<lparr>collectLimits := True\<rparr>
                      else if Contains namespace ''volumes'' then pl1\<lparr>collectVolumes := True\<rparr>
                      else pl1\<lparr>collectSnapshots := True\<rparr>)
           in scan_requests rest pl2)"

text \<open>Populating the tenant directory when the collector has none (lines 103-108).\<close>

definition populate_tenants ::
  "('l, 'v, 's, 'd) world \<Rightarrow> config \<Rightarrow> 'l collector \<Rightarrow> event list
     \<Rightarrow> unit result \<times> 'l collector \<times> event list" where
  "populate_tenants w cfg c tr =
     (if length (allTenants c) = 0
      then (case getTenants w cfg tr of
              (Ok tenants, tr1) \<Rightarrow> (Ok (), c\<lparr>allTenants := tenants\<rparr>, tr1)
            | (Fail e, tr1) \<Rightarrow> (Fail e, c\<lparr>allTenants := []\<rparr>, tr1)
            | (Panic p, tr1) \<Rightarrow> (Panic p, c, tr1))
      else (Ok (), c, tr))"

text \<open>
  The two call-local result maps (lines 132-133) and the goroutines of the admin phase
  (lines 146-176). A goroutine is taken as one step: the fetch, the error sent on the
  channel if there is one, and the stores, which run on whatever the fetch returned.
  The goroutines of a phase run when the phase joins, in the order the world picks.
\<close>

record ('v, 's) locals =
  allSnapshots :: "string \<rightharpoonup> 's"
  allVolumes :: "string \<rightharpoonup> 'v"

datatype admin_task = VolumesTask | SnapshotsTask

definition store_counts ::
  "(string \<times> string) list \<Rightarrow> (string \<times> 'a) list \<Rightarrow> (string \<rightharpoonup> 'a) \<Rightarrow> (string \<rightharpoonup> 'a)" where
  "store_counts tenants counts m =
     fold (\<lambda>(tenantId, n) m. m(tenant_name tenants tenantId \<mapsto> n)) counts m"

fun run_admin_task ::
  "('l, 'v, 's, 'd) world \<Rightarrow> 'l collector \<Rightarrow> provider option \<Rightarrow> admin_task
     \<Rightarrow> event list \<times> go_error list \<times> ('v, 's) locals
     \<Rightarrow> event list \<times> go_error list \<times> ('v, 's) locals" where
  "run_admin_task w c provider VolumesTask (tr, errChn, loc) =
     (let (volumes, err) = GetVolumes w tr (service c) provider
      in (tr @ [EvGetVolumes provider err], send err errChn,
          loc\<lparr>allVolumes := store_counts (allTenants c) volumes (allVolumes loc)\<rparr>))"
| "run_admin_task w c provider SnapshotsTask (tr, errChn, loc) =
     (let (snapshots, err) = GetSnapshots w tr (service c) provider
      in (tr @ [EvGetSnapshots provider err], send err errChn,
          loc\<lparr>allSnapshots := store_counts (allTenants c) snapshots (allSnapshots loc)\<rparr>))"

definition admin_tasks :: "plan \<Rightarrow> admin_task list" where
  "admin_tasks pl =
     (if collectVolumes pl then [VolumesTask] else []) @
     (if collectSnapshots pl then [SnapshotsTask] else [])"

text \<open>The admin-scoped phase (lines 136-184).\<close>

definition admin_phase ::
  "('l, 'v, 's, 'd) world \<Rightarrow> config \<Rightarrow> string \<Rightarrow> plan \<Rightarrow> 'l collector \<Rightarrow> event list
     \<Rightarrow> ('v, 's) locals result \<times> 'l collector \<times> event list" where
  "admin_phase w cfg admin pl c tr =
     (case authenticate w cfg admin c tr of
        (Panic p, c1, tr1) \<Rightarrow> (Panic p, c1, tr1)
      | (Fail e, c1, tr1) \<Rightarrow> (Fail e, c1, tr1)
      | (Ok u, c1, tr1) \<Rightarrow>
          (let provider = providers c1 admin;
               (tr2, errChn, loc) =
                 fold (run_admin_task w c1 provider)
                   (pick_order (completion_order w tr1) (admin_tasks pl))
                   (tr1, [], \<lparr>allSnapshots = Map.empty, allVolumes = Map.empty\<rparr>)
           in (case receive errChn of
                 Some e \<Rightarrow> (Fail e, c1, tr2)
               | None \<Rightarrow> (Ok loc, c1, tr2))))"

text \<open>
  The per-tenant limits phase (lines 187-218). The loop authenticates and launches, one
  tenant after the other, and returns at once when an authentication fails; a launched
  goroutine is never cancelled, so the collector handed back is the one reached when all
  of them have finished. The goroutine (lines 201-208) stores into the shared cache
  whether or not the fetch failed. The goroutines write to one Go map without a lock; the
  stores are taken here one after the other, in the order the goroutines finish, and each
  goroutine reads \<^verbatim>\<open>c.service\<close> as the loop has left it.
\<close>

fun limits_loop ::
  "('l, 'v, 's, 'd) world \<Rightarrow> config \<Rightarrow> bool \<Rightarrow> string list \<Rightarrow> 'l collector \<Rightarrow> event list
     \<Rightarrow> (provider option \<times> string) list
     \<Rightarrow> unit result \<times> 'l collector \<times> event list \<times> (provider option \<times> string) list" where
  "limits_loop w cfg cl [] c tr launched = (Ok (), c, tr, launched)"
| "limits_loop w cfg cl (tenant # rest) c tr launched =
     (let found = (case allLimits c tenant of None \<Rightarrow> False | Some l \<Rightarrow> True)
      in if cl \<and> \<not> found
         then (case authenticate w cfg tenant c tr of
                 (Panic p, c1, tr1) \<Rightarrow> (Panic p, c1, tr1, launched)
               | (Fail e, c1, tr1) \<Rightarrow> (Fail e, c1, tr1, launched)
               | (Ok u, c1, tr1) \<Rightarrow>
                   limits_loop w cfg cl rest c1 tr1 (launched @ [(providers c1 tenant, tenant)]))
         else limits_loop w cfg cl rest c tr launched)"

fun run_limits_task ::
  "('l, 'v, 's, 'd) world \<Rightarrow> provider option \<times> string
     \<Rightarrow> 'l collector \<times> event list \<times> go_error list
     \<Rightarrow> 'l collector \<times> event list \<times> go_error list" where
  "run_limits_task w (p, t) (c, tr, errChn) =
     (let (limits, err) = GetLimits w tr (service c) p
      in (c\<lparr>allLimits := (allLimits c)(t \<mapsto> limits)\<rparr>,
          tr @ [EvGetLimits t p err], send err errChn))"

definition join_limits ::
  "('l, 'v, 's, 'd) world \<Rightarrow> (provider option \<times> string) list \<Rightarrow> 'l collector \<Rightarrow> event list
     \<Rightarrow> 'l collector \<times> event list \<times> go_error list" where
  "join_limits w launched c tr =
     fold (run_limits_task w) (pick_order (completion_order w tr) launched) (c, tr, [])"

definition limits_phase ::
  "('l, 'v, 's, 'd) world \<Rightarrow> config \<Rightarrow> plan \<Rightarrow> 'l collector \<Rightarrow> event list
     \<Rightarrow> unit result \<times> 'l collector \<times> event list" where
  "limits_phase w cfg pl c tr =
     (let (r, c1, tr1, launched) =
            limits_loop w cfg (collectLimits pl)
              (Elements (Elements_order w tr) (collectTenants pl)) c tr [];
          (c2, tr2, errChn) = join_limits w launched c1 tr1
      in (case r of
            Panic p \<Rightarrow> (Panic p, c2, tr2)
          | Fail e \<Rightarrow> (Fail e, c2, tr2)
          | Ok u \<Rightarrow>
              (case receive errChn of
                 Some e \<Rightarrow> (Fail e, c2, tr2)
               | None \<Rightarrow> (Ok (), c2, tr2))))"

text \<open>
  The projection (lines 220-244): one metric per requested metric type, from the
  container of the three per-tenant values, each read as a Go map read.
\<close>

definition make_metric ::
  "('l::zero, 'v::zero, 's::zero, 'd) world \<Rightarrow> 'l collector \<Rightarrow> ('v, 's) locals \<Rightarrow> event list
     \<Rightarrow> nat \<Rightarrow> 'd metric_type \<Rightarrow> 'd metric_type" where
  "make_metric w c loc tr i metricType =
     (let namespace = mt_namespace metricType;
          tenant = namespace ! 3;
          metricContainer = (lookup0 (allSnapshots loc) tenant,
                             lookup0 (allVolumes loc) tenant,
                             lookup0 (allLimits c) tenant)
      in \<lparr>mt_namespace = namespace, mt_config = Map.empty,
          mt_timestamp = Now w tr i,
          mt_data = GetValueByNamespace w metricContainer (drop 4 namespace)\<rparr>)"

definition projection ::
  "('l::zero, 'v::zero, 's::zero, 'd) world \<Rightarrow> 'l collector \<Rightarrow> ('v, 's) locals \<Rightarrow> event list
     \<Rightarrow> 'd metric_type list \<Rightarrow> 'd metric_type list" where
  "projection w c loc tr metricTypes =
     map (\<lambda>(i, metricType). make_metric w c loc tr i metricType) (enumerate 0 metricTypes)"

text \<open>\<^verbatim>\<open>CollectMetrics\<close> (lines 94-245).\<close>

definition CollectMetrics ::
  "('l::zero, 'v::zero, 's::zero, 'd) world \<Rightarrow> 'd metric_type list \<Rightarrow> 'l collector \<Rightarrow> event list
     \<Rightarrow> 'd metric_type list result \<times> 'l collector \<times> event list" where
  "CollectMetrics w metricTypes c tr =
     (case metricTypes of
        [] \<Rightarrow> (Panic IndexOutOfRange, c, tr)
      | mt0 # others \<Rightarrow>
     (case GetConfigItem (mt_config mt0) ''tenant'' of
        Inl e \<Rightarrow> (Fail e, c, tr)
      | Inr item \<Rightarrow>
     (case as_string (Some item) of
        None \<Rightarrow> (Panic TypeAssertion, c, tr)
      | Some admin \<Rightarrow>
     (case populate_tenants w (mt_config mt0) c tr of
        (Panic p, c1, tr1) \<Rightarrow> (Panic p, c1, tr1)
      | (Fail e, c1, tr1) \<Rightarrow> (Fail e, c1, tr1)
      | (Ok u, c1, tr1) \<Rightarrow>
     (case scan_requests metricTypes empty_plan of
        Panic p \<Rightarrow> (Panic p, c1, tr1)
      | Fail e \<Rightarrow> (Fail e, c1, tr1)
      | Ok pl \<Rightarrow>
     (case admin_phase w (mt_config mt0) admin pl c1 tr1 of
        (Panic p, c2, tr2) \<Rightarrow> (Panic p, c2, tr2)
      | (Fail e, c2, tr2) \<Rightarrow> (Fail e, c2, tr2)
      | (Ok loc, c2, tr2) \<Rightarrow>
     (case limits_phase w (mt_config mt0) pl c2 tr2 of
        (Panic p, c3, tr3) \<Rightarrow> (Panic p, c3, tr3)
      | (Fail e, c3, tr3) \<Rightarrow> (Fail e, c3, tr3)
      | (Ok u, c3, tr3) \<Rightarrow>
          (Ok (projection w c3 loc tr3 metricTypes), c3, tr3))))))))"

section \<open>Notions used in the statements\<close>

text \<open>The number of credential exchanges made for a tenant in a list of network calls.\<close>

fun is_exchange :: "string \<Rightarrow> event \<Rightarrow> bool" where
  "is_exchange tenant (EvAuthenticate creds t err) = (t = tenant)"
| "is_exchange tenant ev = False"

definition credential_exchanges :: "string \<Rightarrow> event list \<Rightarrow> nat" where
  "credential_exchanges tenant tr = length (filter (is_exchange tenant) tr)"

text \<open>
  A namespace in which the category word stands at position 4 and the words the code
  looks for stand nowhere else.
\<close>

definition well_categorised :: "string list \<Rightarrow> bool" where
  "well_categorised namespace =
     (let others = take 4 namespace @ drop 5 namespace
      in 4 < length namespace \<and>
         (namespace ! 4 = ''limits'' \<or> namespace ! 4 = ''volumes'' \<or>
          namespace ! 4 = ''snapshots'') \<and>
         \<not> Contains others ''limits'' \<and> \<not> Contains others ''volumes'')"

text \<open>The kinds of network call, and the error a call came back with.\<close>

fun is_listing :: "event \<Rightarrow> bool" where
  "is_listing (EvGetTenants creds err) = True"
| "is_listing ev = False"

fun is_auth :: "event \<Rightarrow> bool" where
  "is_auth (EvAuthenticate creds t err) = True"
| "is_auth ev = False"

fun is_admin_fetch :: "event \<Rightarrow> bool" where
  "is_admin_fetch (EvGetVolumes p err) = True"
| "is_admin_fetch (EvGetSnapshots p err) = True"
| "is_admin_fetch ev = False"

fun is_limits_fetch :: "event \<Rightarrow> bool" where
  "is_limits_fetch (EvGetLimits t p err) = True"
| "is_limits_fetch ev = False"

fun event_error :: "event \<Rightarrow> go_error option" where
  "event_error (EvGetTenants creds err) = err"
| "event_error (EvAuthenticate creds t err) = err"
| "event_error (EvGetVolumes p err) = err"
| "event_error (EvGetSnapshots p err) = err"
| "event_error (EvGetLimits t p err) = err"

definition errors_of :: "event list \<Rightarrow> go_error list" where
  "errors_of evs = List.map_filter event_error evs"

text \<open>The network calls made since the trace \<open>tr\<close>, in a trace \<open>tr'\<close> that extends it.\<close>

definition new_events :: "event list \<Rightarrow> event list \<Rightarrow> event list" where
  "new_events tr tr' = drop (length tr) tr'"

text \<open>The goroutine of the admin phase a fetch belongs to.\<close>

fun admin_task_of :: "event \<Rightarrow> admin_task option" where
  "admin_task_of (EvGetVolumes p err) = Some VolumesTask"
| "admin_task_of (EvGetSnapshots p err) = Some SnapshotsTask"
| "admin_task_of ev = None"

text \<open>
  Successive calls of \<open>CollectMetrics\<close> on the same collector, one request list after the
  other; a panic ends the process and with it the sequence.
\<close>

fun CollectMetrics_calls ::
  "('l::zero, 'v::zero, 's::zero, 'd) world \<Rightarrow> 'd metric_type list list \<Rightarrow> 'l collector \<Rightarrow> event list
     \<Rightarrow> 'l collector \<times> event list" where
  "CollectMetrics_calls w [] c tr = (c, tr)"
| "CollectMetrics_calls w (metricTypes # later) c tr =
     (case CollectMetrics w metricTypes c tr of
        (Panic p, c1, tr1) \<Rightarrow> (c1, tr1)
      | (Fail e, c1, tr1) \<Rightarrow> CollectMetrics_calls w later c1 tr1
      | (Ok ms, c1, tr1) \<Rightarrow> CollectMetrics_calls w later c1 tr1)"

section \<open>Example inputs\<close>

text \<open>
  A configuration with the four required items, a world in which every collaborator
  answers, and variants of it in which one collaborator fails. Limits, volume counts,
  snapshot counts and metric data are integers here.
\<close>

definition example_config :: config where
  "example_config =
     [''tenant'' \<mapsto> CfgString ''alpha'', ''endpoint'' \<mapsto> CfgString ''keystone'',
      ''user'' \<mapsto> CfgString ''admin'', ''password'' \<mapsto> CfgString ''secret'']"

definition example_credentials :: credentials where
  "example_credentials =
     \<lparr>endpoint = ''keystone'', user = ''admin'', password = ''secret'',
      domain_name = [], domain_id = []\<rparr>"

definition request :: "string list \<Rightarrow> int metric_type" where
  "request namespace =
     \<lparr>mt_namespace = namespace, mt_config = example_config,
      mt_timestamp = 0, mt_data = None\<rparr>"

fun example_codec :: "int \<times> int \<times> int \<Rightarrow> string list \<Rightarrow> int option" where
  "example_codec (s, v, l) path =
     (if path = [''snapshots'', ''count''] then Some s
      else if path = [''volumes'', ''count''] then Some v
      else if path = [''limits'', ''maxVolumes''] then Some l
      else None)"

definition example_world :: "(int, int, int, int) world" where
  "example_world =
     \<lparr>GetTenants = (\<lambda>tr creds. Inr [(''id-a'', ''alpha''), (''id-b'', ''beta'')]),
      Authenticate = (\<lambda>tr creds tenant. Inr (Provider (if tenant = ''alpha'' then 1 else 2))),
      Dispatch = (\<lambda>p. Service 2),
      GetVolumes = (\<lambda>tr s p. ([(''id-a'', 7)], None)),
      GetSnapshots = (\<lambda>tr s p. ([(''id-a'', 3)], None)),
      GetLimits = (\<lambda>tr s p. (50, None)),
      GetValueByNamespace = example_codec,
      Now = (\<lambda>tr i. length tr + i),
      Elements_order = (\<lambda>tr. []),
      completion_order = (\<lambda>tr. [])\<rparr>"

definition directory_down :: "(int, int, int, int) world" where
  "directory_down =
     example_world\<lparr>GetTenants := (\<lambda>tr creds. Inl (External ''directory down''))\<rparr>"

definition volumes_down :: "(int, int, int, int) world" where
  "volumes_down =
     example_world\<lparr>GetVolumes := (\<lambda>tr s p. ([], Some (External ''volumes down'')))\<rparr>"


definition login_flaky :: "(int, int, int, int) world" where
  "login_flaky =
     example_world\<lparr>Authenticate := (\<lambda>tr creds tenant.
        if tr = [] then Inl (External ''login refused'') else Inr (Provider 1))\<rparr>"

definition request_A :: "int metric_type list" where
  "request_A =
     [request [''intel'', ''openstack'', ''cinder'', ''alpha'', ''volumes'', ''count''],
      request [''intel'', ''openstack'', ''cinder'', ''beta'', ''limits'', ''maxVolumes'']]"

definition plan_A :: plan where
  "plan_A = \<lparr>collectTenants = [''alpha'', ''beta''], collectLimits = True,
             collectVolumes = True, collectSnapshots = False\<rparr>"

definition request_short :: "int metric_type list" where
  "request_short = [request [''intel'', ''openstack'', ''cinder'', ''alpha'']]"

definition request_tenant_named_limits :: "int metric_type list" where
  "request_tenant_named_limits =
     [request [''intel'', ''openstack'', ''cinder'', ''limits'', ''volumes'', ''count'']]"


text \<open>
  The collectors and traces that a call on a new collector goes through in these worlds:
  after the directory listing, after the admin login, after the login of \<open>beta\<close>.
\<close>

definition collector_1 :: "int collector" where
  "collector_1 = New\<lparr>allTenants := [(''id-a'', ''alpha''), (''id-b'', ''beta'')]\<rparr>"

definition collector_2 :: "int collector" where
  "collector_2 = collector_1\<lparr>providers := [''alpha'' \<mapsto> Provider 1],
                             service := Some (Service 2), common := True\<rparr>"

definition collector_3 :: "int collector" where
  "collector_3 =
     collector_2\<lparr>providers := [''alpha'' \<mapsto> Provider 1, ''beta'' \<mapsto> Provider 2]\<rparr>"

definition trace_1 :: "event list" where
  "trace_1 = [EvGetTenants example_credentials None]"

definition trace_2 :: "event list" where
  "trace_2 = trace_1 @ [EvAuthenticate example_credentials ''alpha'' None]"

definition trace_3 :: "event list" where
  "trace_3 = trace_2 @ [EvGetVolumes (Some (Provider 1)) None,
                        EvAuthenticate example_credentials ''beta'' None]"

definition collector_beta_cached :: "int collector" where
  "collector_beta_cached = New\<lparr>allLimits := [''beta'' \<mapsto> 40]\<rparr>"



section \<open>The empty request\<close>

text \<open>
  C9. \<^verbatim>\<open>CollectMetrics\<close> reads \<^verbatim>\<open>metricTypes[0]\<close> on its first line, before anything is
  checked: called with an empty request list it panics with an index out of range, having
  touched neither the collector nor the network. The call is safe only for a request list
  with at least one element.
\<close>

theorem CollectMetrics_empty_request_panics:
  "CollectMetrics w [] c tr = (Panic IndexOutOfRange, c, tr)"
  by (simp add: CollectMetrics_def)

section \<open>The collection plan\<close>

lemma scan_requests_flags:
  "scan_requests mts pl = Ok pl' \<Longrightarrow>
     collectLimits pl' = (collectLimits pl \<or> (\<exists>mt\<in>set mts. Contains (mt_namespace mt) ''limits'')) \<and>
     collectVolumes pl' = (collectVolumes pl \<or>
        (\<exists>mt\<in>set mts. \<not> Contains (mt_namespace mt) ''limits'' \<and> Contains (mt_namespace mt) ''volumes'')) \<and>
     collectSnapshots pl' = (collectSnapshots pl \<or>
        (\<exists>mt\<in>set mts. \<not> Contains (mt_namespace mt) ''limits'' \<and> \<not> Contains (mt_namespace mt) ''volumes''))"
proof (induction mts arbitrary: pl)
  case Nil
  then show ?case by simp
next
  case (Cons mt mts)
  let ?ns = "mt_namespace mt"
  define L where "L = Contains ?ns ''limits''"
  define V where "V = Contains ?ns ''volumes''"
  define pl1 where "pl1 = pl\<lparr>collectTenants := Add (?ns ! 3) (collectTenants pl)\<rparr>"
  define pl2 where "pl2 = (if L then pl1\<lparr>collectLimits := True\<rparr>
                      else if V then pl1\<lparr>collectVolumes := True\<rparr>
                      else pl1\<lparr>collectSnapshots := True\<rparr>)"
  have step: "scan_requests (mt # mts) pl =
      (if length ?ns < 6 then Fail (IncorrectNamespaceLength (length ?ns)) else scan_requests mts pl2)"
    by (simp add: Let_def pl1_def pl2_def L_def V_def)
  with Cons.prems have "scan_requests mts pl2 = Ok pl'"
    by (simp split: if_splits)
  note IH = Cons.IH [OF this]
  have cl: "collectLimits pl2 = (collectLimits pl \<or> L)"
    and cv: "collectVolumes pl2 = (collectVolumes pl \<or> (\<not> L \<and> V))"
    and cs: "collectSnapshots pl2 = (collectSnapshots pl \<or> (\<not> L \<and> \<not> V))"
    by (simp_all add: pl2_def pl1_def)
  have ex: "\<And>P. (\<exists>m\<in>set (mt # mts). P m) = (P mt \<or> (\<exists>m\<in>set mts. P m))"
    by simp
  show ?case
    unfolding ex using IH unfolding cl cv cs L_def V_def by blast
qed

lemma Contains_split5:
  assumes "4 < length ns"
  shows "Contains ns x = (ns ! 4 = x \<or> Contains (take 4 ns @ drop 5 ns) x)"
proof -
  have "set ns = set (take 4 ns @ ns ! 4 # drop (Suc 4) ns)"
    by (rule arg_cong [where f = set, OF id_take_nth_drop [OF assms]])
  then show ?thesis by (auto simp: Contains_def)
qed

lemma category_cases:
  fixes x :: string
  assumes "x = L \<or> x = V \<or> x = S" and "L \<noteq> V" and "L \<noteq> S" and "V \<noteq> S"
  shows "(x \<noteq> L \<and> x = V) = (x = V)" and "(x \<noteq> L \<and> x \<noteq> V) = (x = S)"
  using assms by blast+

lemma well_categorised_Contains:
  assumes "well_categorised ns"
  shows "Contains ns ''limits'' = (ns ! 4 = ''limits'')"
    and "(\<not> Contains ns ''limits'' \<and> Contains ns ''volumes'') = (ns ! 4 = ''volumes'')"
    and "(\<not> Contains ns ''limits'' \<and> \<not> Contains ns ''volumes'') = (ns ! 4 = ''snapshots'')"
proof -
  define others where "others = take 4 ns @ drop 5 ns"
  from assms have len: "4 < length ns"
    and cat: "ns ! 4 = ''limits'' \<or> ns ! 4 = ''volumes'' \<or> ns ! 4 = ''snapshots''"
    and nl: "\<not> Contains others ''limits''" and nv: "\<not> Contains others ''volumes''"
    by (simp_all add: well_categorised_def Let_def others_def)
  have l: "Contains ns ''limits'' = (ns ! 4 = ''limits'')"
    using Contains_split5 [OF len, of "''limits''"] nl by (simp add: others_def)
  have v: "Contains ns ''volumes'' = (ns ! 4 = ''volumes'')"
    using Contains_split5 [OF len, of "''volumes''"] nv by (simp add: others_def)
  have d: "''limits'' \<noteq> ''volumes''" "''limits'' \<noteq> ''snapshots''" "''volumes'' \<noteq> ''snapshots''"
    by simp_all
  show "Contains ns ''limits'' = (ns ! 4 = ''limits'')" by (rule l)
  show "(\<not> Contains ns ''limits'' \<and> Contains ns ''volumes'') = (ns ! 4 = ''volumes'')"
    unfolding l v by (rule category_cases(1) [OF cat d])
  show "(\<not> Contains ns ''limits'' \<and> \<not> Contains ns ''volumes'') = (ns ! 4 = ''snapshots'')"
    unfolding l v by (rule category_cases(2) [OF cat d])
qed

text \<open>
  C3, as the code has it. The flags follow from which of the words \<open>limits\<close> and
  \<open>volumes\<close> occur anywhere in a requested namespace, \<open>limits\<close> first:
  \<open>collectLimits\<close> is set iff some namespace has a segment \<open>limits\<close>,
  \<open>collectVolumes\<close> iff some namespace has no segment \<open>limits\<close> and a segment
  \<open>volumes\<close>, \<open>collectSnapshots\<close> iff some namespace has neither. Where every
  namespace is well categorised this is the rule by segment 4.
\<close>

theorem plan_flags_by_membership:
  assumes "scan_requests mts empty_plan = Ok pl"
  shows "collectLimits pl = (\<exists>mt\<in>set mts. Contains (mt_namespace mt) ''limits'') \<and>
         collectVolumes pl = (\<exists>mt\<in>set mts. \<not> Contains (mt_namespace mt) ''limits'' \<and>
                                            Contains (mt_namespace mt) ''volumes'') \<and>
         collectSnapshots pl = (\<exists>mt\<in>set mts. \<not> Contains (mt_namespace mt) ''limits'' \<and>
                                              \<not> Contains (mt_namespace mt) ''volumes'') \<and>
         ((\<forall>mt\<in>set mts. well_categorised (mt_namespace mt)) \<longrightarrow>
            collectLimits pl = (\<exists>mt\<in>set mts. mt_namespace mt ! 4 = ''limits'') \<and>
            collectVolumes pl = (\<exists>mt\<in>set mts. mt_namespace mt ! 4 = ''volumes'') \<and>
            collectSnapshots pl = (\<exists>mt\<in>set mts. mt_namespace mt ! 4 = ''snapshots''))"
proof -
  from scan_requests_flags [OF assms]
  have l: "collectLimits pl = (\<exists>mt\<in>set mts. Contains (mt_namespace mt) ''limits'')"
    and v: "collectVolumes pl = (\<exists>mt\<in>set mts. \<not> Contains (mt_namespace mt) ''limits'' \<and>
                                            Contains (mt_namespace mt) ''volumes'')"
    and s: "collectSnapshots pl = (\<exists>mt\<in>set mts. \<not> Contains (mt_namespace mt) ''limits'' \<and>
                                              \<not> Contains (mt_namespace mt) ''volumes'')"
    by (simp_all add: empty_plan_def)
  have w: "collectLimits pl = (\<exists>mt\<in>set mts. mt_namespace mt ! 4 = ''limits'') \<and>
           collectVolumes pl = (\<exists>mt\<in>set mts. mt_namespace mt ! 4 = ''volumes'') \<and>
           collectSnapshots pl = (\<exists>mt\<in>set mts. mt_namespace mt ! 4 = ''snapshots'')"
    if wc: "\<forall>mt\<in>set mts. well_categorised (mt_namespace mt)"
  proof -
    have "\<forall>mt\<in>set mts. Contains (mt_namespace mt) ''limits'' = (mt_namespace mt ! 4 = ''limits'')"
      using wc well_categorised_Contains(1) by blast
    moreover have "\<forall>mt\<in>set mts. (\<not> Contains (mt_namespace mt) ''limits'' \<and>
        Contains (mt_namespace mt) ''volumes'') = (mt_namespace mt ! 4 = ''volumes'')"
      using wc well_categorised_Contains(2) by blast
    moreover have "\<forall>mt\<in>set mts. (\<not> Contains (mt_namespace mt) ''limits'' \<and>
        \<not> Contains (mt_namespace mt) ''volumes'') = (mt_namespace mt ! 4 = ''snapshots'')"
      using wc well_categorised_Contains(3) by blast
    ultimately show ?thesis unfolding l v s by (simp cong: bex_cong)
  qed
  from l v s w show ?thesis by blast
qed

theorem plan_flags_by_membership_witness:
  "scan_requests request_A empty_plan = Ok plan_A \<and>
   list_all (\<lambda>mt. well_categorised (mt_namespace mt)) request_A \<and>
   collectLimits plan_A = (\<exists>mt\<in>set request_A. mt_namespace mt ! 4 = ''limits'') \<and>
   collectVolumes plan_A = (\<exists>mt\<in>set request_A. mt_namespace mt ! 4 = ''volumes'') \<and>
   collectSnapshots plan_A = (\<exists>mt\<in>set request_A. mt_namespace mt ! 4 = ''snapshots'')"
proof -
  have h: "scan_requests request_A empty_plan = Ok plan_A"
    by (simp add: request_A_def request_def empty_plan_def plan_A_def Add_def Contains_def)
  have wc: "\<forall>mt\<in>set request_A. well_categorised (mt_namespace mt)"
    by (simp add: request_A_def request_def well_categorised_def Contains_def)
  from plan_flags_by_membership [OF h] wc h show ?thesis
    unfolding list_all_iff by blast
qed

text \<open>
  C3 as the specification words it fails for a tenant whose display name is \<open>limits\<close>:
  the request names the category \<open>volumes\<close> at segment 4, and the plan asks for limits
  and not for volumes.
\<close>

theorem plan_flags_segment4_counterexample:
  "scan_requests request_tenant_named_limits empty_plan =
     Ok \<lparr>collectTenants = [''limits''], collectLimits = True,
         collectVolumes = False, collectSnapshots = False\<rparr> \<and>
   mt_namespace (hd request_tenant_named_limits) ! 4 = ''volumes'' \<and>
   mt_namespace (hd request_tenant_named_limits) ! 3 = ''limits''"
  by (simp add: request_tenant_named_limits_def request_def empty_plan_def Add_def Contains_def)

section \<open>The session cache\<close>

lemma authenticate_cached:
  "providers c tenant = Some p \<Longrightarrow> authenticate w cfg tenant c tr = (Ok (), c, tr)"
  by (simp add: authenticate_def)

lemma authenticate_Ok_uncached:
  assumes "providers c tenant = None"
    and "authenticate w cfg tenant c tr = (Ok u, c1, tr1)"
  shows "\<exists>creds p. read_credentials cfg = Ok creds \<and>
           Authenticate w tr creds tenant = Inr p \<and>
           c1 = c\<lparr>providers := (providers c)(tenant \<mapsto> p),
                   service := Some (Dispatch w p), common := True\<rparr> \<and>
           tr1 = tr @ [EvAuthenticate creds tenant None]"
  using assms
  by (auto simp: authenticate_def split: result.splits sum.splits)

lemma credential_exchanges_append:
  "credential_exchanges t (tr @ evs) = credential_exchanges t tr + credential_exchanges t evs"
  by (simp add: credential_exchanges_def)

lemma example_credentials_read: "read_credentials example_config = Ok example_credentials"
  by (simp add: read_credentials_def optional_item_def GetConfigItem_def example_config_def
      example_credentials_def)

text \<open>
  C4. A tenant with no session yet, and a call of \<open>authenticate\<close> that returns without
  error: the call made one credential exchange and stored the session it got; a second
  call for the same tenant, whatever the world and the configuration, returns without
  error, leaves the collector as it is and makes no network call. The two calls together
  made exactly one exchange for the tenant.
\<close>

theorem authenticate_twice_one_exchange:
  assumes "providers c tenant = None"
    and "authenticate w cfg tenant c tr = (Ok (), c1, tr1)"
  shows "authenticate w2 cfg2 tenant c1 tr1 = (Ok (), c1, tr1) \<and>
         credential_exchanges tenant tr1 = credential_exchanges tenant tr + 1 \<and>
         (\<exists>creds p. Authenticate w tr creds tenant = Inr p \<and>
                    providers c1 tenant = Some p \<and>
                    tr1 = tr @ [EvAuthenticate creds tenant None])"
proof -
  from authenticate_Ok_uncached [OF assms]
  obtain creds p where a: "Authenticate w tr creds tenant = Inr p"
    and c1: "c1 = c\<lparr>providers := (providers c)(tenant \<mapsto> p),
                     service := Some (Dispatch w p), common := True\<rparr>"
    and tr1: "tr1 = tr @ [EvAuthenticate creds tenant None]"
    by blast
  from c1 have p: "providers c1 tenant = Some p" by simp
  have "authenticate w2 cfg2 tenant c1 tr1 = (Ok (), c1, tr1)"
    by (rule authenticate_cached [OF p])
  moreover have "credential_exchanges tenant tr1 = credential_exchanges tenant tr + 1"
    by (simp add: tr1 credential_exchanges_def)
  ultimately show ?thesis using a p tr1 by blast
qed

theorem authenticate_twice_one_exchange_witness:
  "providers (New :: int collector) ''beta'' = None \<and>
   fst (authenticate example_world example_config ''beta'' New []) = Ok () \<and>
   credential_exchanges ''beta''
     (snd (snd (authenticate example_world example_config ''beta'' (New :: int collector) []))) = 1"
proof -
  have h1: "providers (New :: int collector) ''beta'' = None"
    by (simp add: New_def)
  obtain c1 tr1 where
    h2: "authenticate example_world example_config ''beta'' (New :: int collector) [] = (Ok (), c1, tr1)"
    by (simp add: authenticate_def example_credentials_read example_world_def New_def)
  from authenticate_twice_one_exchange [OF h1 h2, of example_world example_config] h1 h2
  show ?thesis by (simp add: credential_exchanges_def)
qed

text \<open>
  C8. A tenant with no session, credentials that read, and an exchange that fails with
  \<open>e\<close>: \<open>authenticate\<close> returns \<open>e\<close> itself and leaves the collector as it was, so
  nothing is stored for the tenant. A later call for the same tenant finds no session and
  makes the exchange again; if that one succeeds its session is stored.
\<close>

theorem authenticate_failure_not_cached:
  assumes "providers c tenant = None"
    and "read_credentials cfg = Ok creds"
    and "Authenticate w tr creds tenant = Inl e"
  shows "authenticate w cfg tenant c tr = (Fail e, c, tr @ [EvAuthenticate creds tenant (Some e)]) \<and>
         (\<forall>tr2. authenticate w cfg tenant c tr2 =
            (case Authenticate w tr2 creds tenant of
               Inl e2 \<Rightarrow> (Fail e2, c, tr2 @ [EvAuthenticate creds tenant (Some e2)])
             | Inr p \<Rightarrow> (Ok (), c\<lparr>providers := (providers c)(tenant \<mapsto> p),
                                   service := Some (Dispatch w p), common := True\<rparr>,
                          tr2 @ [EvAuthenticate creds tenant None]))) \<and>
         (\<forall>tr2. credential_exchanges tenant (snd (snd (authenticate w cfg tenant c tr2))) =
                  credential_exchanges tenant tr2 + 1)"
proof -
  have again: "authenticate w cfg tenant c tr2 =
            (case Authenticate w tr2 creds tenant of
               Inl e2 \<Rightarrow> (Fail e2, c, tr2 @ [EvAuthenticate creds tenant (Some e2)])
             | Inr p \<Rightarrow> (Ok (), c\<lparr>providers := (providers c)(tenant \<mapsto> p),
                                   service := Some (Dispatch w p), common := True\<rparr>,
                          tr2 @ [EvAuthenticate creds tenant None]))" for tr2
    using assms(1,2) by (simp add: authenticate_def)
  have first: "authenticate w cfg tenant c tr = (Fail e, c, tr @ [EvAuthenticate creds tenant (Some e)])"
    using again [of tr] assms(3) by simp
  have count: "credential_exchanges tenant (snd (snd (authenticate w cfg tenant c tr2))) =
                  credential_exchanges tenant tr2 + 1" for tr2
    unfolding again [of tr2]
    by (cases "Authenticate w tr2 creds tenant") (simp_all add: credential_exchanges_def)
  from first again count show ?thesis by blast
qed

theorem authenticate_failure_not_cached_witness:
  "authenticate login_flaky example_config ''alpha'' (New :: int collector) [] =
     (Fail (External ''login refused''), New,
      [EvAuthenticate example_credentials ''alpha'' (Some (External ''login refused''))]) \<and>
   fst (authenticate login_flaky example_config ''alpha'' (New :: int collector)
      [EvAuthenticate example_credentials ''alpha'' (Some (External ''login refused''))]) = Ok ()"
proof -
  have h1: "providers (New :: int collector) ''alpha'' = None"
    by (simp add: New_def)
  have h3: "Authenticate login_flaky [] example_credentials ''alpha'' = Inl (External ''login refused'')"
    by (simp add: login_flaky_def example_world_def)
  have h4: "Authenticate login_flaky
      [EvAuthenticate example_credentials ''alpha'' (Some (External ''login refused''))]
      example_credentials ''alpha'' = Inr (Provider 1)"
    by (simp add: login_flaky_def example_world_def)
  note T = authenticate_failure_not_cached [OF h1 example_credentials_read h3]
  from conjunct1 [OF T] have a: "authenticate login_flaky example_config ''alpha'' (New :: int collector) [] =
     (Fail (External ''login refused''), New,
      [EvAuthenticate example_credentials ''alpha'' (Some (External ''login refused''))])"
    by (simp only: append_Nil)
  from conjunct1 [OF conjunct2 [OF T]]
  have b: "fst (authenticate login_flaky example_config ''alpha'' (New :: int collector)
      [EvAuthenticate example_credentials ''alpha'' (Some (External ''login refused''))]) = Ok ()"
    by (simp add: h4)
  from a b show ?thesis by (rule conjI)
qed

section \<open>Validation of the request\<close>

lemma scan_requests_short:
  assumes "mt \<in> set mts" and "length (mt_namespace mt) < 6"
  shows "\<exists>n<6. scan_requests mts pl = Fail (IncorrectNamespaceLength n)"
  using assms
proof (induction mts arbitrary: pl)
  case Nil
  then show ?case by simp
next
  case (Cons a mts)
  show ?case
  proof (cases "length (mt_namespace a) < 6")
    case True
    then show ?thesis by (simp add: Let_def)
  next
    case False
    with Cons.prems have "mt \<in> set mts" by auto
    from Cons.IH [OF this Cons.prems(2)] False show ?thesis
      by (simp add: Let_def)
  qed
qed

lemma populate_tenants_cases:
  assumes "populate_tenants w cfg c tr = (r, c1, tr1)"
  shows "(allTenants c \<noteq> [] \<and> r = Ok () \<and> c1 = c \<and> tr1 = tr) \<or>
         (allTenants c = [] \<and> tr1 = tr \<and> c1 = c \<and> (\<forall>u. r \<noteq> Ok u)) \<or>
         (allTenants c = [] \<and> c1 = c \<and>
            (\<exists>creds e. tr1 = tr @ [EvGetTenants creds (Some e)] \<and> r = Fail e)) \<or>
         (allTenants c = [] \<and> r = Ok () \<and>
            (\<exists>creds tenants. tr1 = tr @ [EvGetTenants creds None] \<and>
               GetTenants w tr creds = Inr tenants \<and> c1 = c\<lparr>allTenants := tenants\<rparr>))"
proof (cases "allTenants c = []")
  case False
  with assms show ?thesis by (simp add: populate_tenants_def)
next
  case True
  show ?thesis
  proof (cases "read_credentials cfg")
    case (Ok creds)
    show ?thesis
    proof (cases "GetTenants w tr creds")
      case (Inl e)
      with assms True Ok show ?thesis
        by (auto simp: populate_tenants_def getTenants_def)
    next
      case (Inr tenants)
      with assms True Ok show ?thesis
        by (auto simp: populate_tenants_def getTenants_def)
    qed
  next
    case (Fail e)
    with assms True show ?thesis
      by (auto simp: populate_tenants_def getTenants_def)
  next
    case (Panic p)
    with assms True show ?thesis
      by (auto simp: populate_tenants_def getTenants_def)
  qed
qed

lemma CollectMetrics_plan_fails:
  assumes "scan_requests (mt0 # rest) empty_plan = Fail e"
  shows "CollectMetrics w (mt0 # rest) c tr =
     (case mt_config mt0 ''tenant'' of
        None \<Rightarrow> (Fail (ConfigItemMissing ''tenant''), c, tr)
      | Some item \<Rightarrow>
          (case as_string (Some item) of
             None \<Rightarrow> (Panic TypeAssertion, c, tr)
           | Some admin \<Rightarrow>
               (case populate_tenants w (mt_config mt0) c tr of
                  (Panic p, c1, tr1) \<Rightarrow> (Panic p, c1, tr1)
                | (Fail e1, c1, tr1) \<Rightarrow> (Fail e1, c1, tr1)
                | (Ok u, c1, tr1) \<Rightarrow> (Fail e, c1, tr1))))"
  unfolding CollectMetrics_def list.case GetConfigItem_def assms
  by (simp split: option.splits prod.splits result.splits)

lemma populate_tenants_example:
  "populate_tenants example_world example_config (New :: int collector) [] =
     (Ok (), New\<lparr>allTenants := [(''id-a'', ''alpha''), (''id-b'', ''beta'')]\<rparr>,
      [EvGetTenants example_credentials None])"
  by (simp add: populate_tenants_def getTenants_def example_credentials_read New_def
      example_world_def)

lemma populate_tenants_directory_down:
  "populate_tenants directory_down example_config (New :: int collector) [] =
     (Fail (External ''directory down''), New,
      [EvGetTenants example_credentials (Some (External ''directory down''))])"
  by (simp add: populate_tenants_def getTenants_def example_credentials_read New_def
      directory_down_def example_world_def)

lemma scan_request_short: "scan_requests request_short empty_plan = Fail (IncorrectNamespaceLength 4)"
  by (simp add: request_short_def request_def)

lemma example_admin: "example_config ''tenant'' = Some (CfgString ''alpha'')"
  by (simp add: example_config_def)

text \<open>
  C2, as the code has it. For a request list holding a namespace of fewer than six
  segments, \<open>CollectMetrics\<close> returns no metrics, authenticates nobody and fetches
  nothing: the only network call it can make is the listing of the tenant directory, made
  before the namespaces are looked at when the collector has no tenants yet. With the
  admin tenant configured as a string, and the directory either there already or listed
  successfully, the error returned is the one for the namespace length; with the directory
  there already, neither the collector nor the network is touched.
\<close>

theorem short_namespace_rejected:
  assumes "mt \<in> set mts" and "length (mt_namespace mt) < 6"
    and "CollectMetrics w mts c tr = (r, c', tr')"
  shows "(\<forall>ms. r \<noteq> Ok ms) \<and>
         (tr' = tr \<or> (allTenants c = [] \<and> (\<exists>creds err. tr' = tr @ [EvGetTenants creds err]))) \<and>
         (allTenants c \<noteq> [] \<longrightarrow> c' = c \<and> tr' = tr) \<and>
         ((\<exists>admin. mt_config (hd mts) ''tenant'' = Some (CfgString admin)) \<and>
          (allTenants c \<noteq> [] \<or> (\<exists>creds. tr' = tr @ [EvGetTenants creds None])) \<longrightarrow>
            (\<exists>n<6. r = Fail (IncorrectNamespaceLength n)))"
proof -
  from assms(1) obtain mt0 rest where mts: "mts = mt0 # rest"
    by (cases mts) auto
  from scan_requests_short [OF assms(1,2), of empty_plan]
  obtain n where n: "n < 6" and scan: "scan_requests (mt0 # rest) empty_plan = Fail (IncorrectNamespaceLength n)"
    unfolding mts by blast
  note CM = CollectMetrics_plan_fails [OF scan, of w c tr]
  show ?thesis
  proof (cases "mt_config mt0 ''tenant''")
    case None
    with CM assms(3) show ?thesis by (auto simp: mts)
  next
    case (Some item)
    show ?thesis
    proof (cases "as_string (Some item)")
      case None
      with CM Some assms(3) have "r = Panic TypeAssertion" "c' = c" "tr' = tr"
        by (simp_all add: mts)
      moreover from None have "\<And>admin. item \<noteq> CfgString admin" by auto
      ultimately show ?thesis using Some by (simp add: mts)
    next
      case admin: (Some admin)
      obtain r1 c1 tr1 where pt: "populate_tenants w (mt_config mt0) c tr = (r1, c1, tr1)"
        by (cases "populate_tenants w (mt_config mt0) c tr") auto
      from CM Some admin pt assms(3)
      have res: "(r, c', tr') = (case r1 of Panic p \<Rightarrow> (Panic p, c1, tr1)
                    | Fail e1 \<Rightarrow> (Fail e1, c1, tr1)
                    | Ok u \<Rightarrow> (Fail (IncorrectNamespaceLength n), c1, tr1))"
        by (simp add: mts split: result.splits)
      then have tr': "tr' = tr1" and c': "c' = c1" and notOk: "\<forall>ms. r \<noteq> Ok ms"
        and ok: "r1 = Ok () \<Longrightarrow> r = Fail (IncorrectNamespaceLength n)"
        by (auto split: result.splits)
      from populate_tenants_cases [OF pt] show ?thesis
      proof (elim disjE conjE exE)
        assume "allTenants c \<noteq> []" "r1 = Ok ()" "c1 = c" "tr1 = tr"
        with tr' c' notOk ok n show ?thesis by auto
      next
        assume "allTenants c = []" "tr1 = tr" "c1 = c" "\<forall>u. r1 \<noteq> Ok u"
        with tr' c' notOk show ?thesis by auto
      next
        fix creds e
        assume "allTenants c = []" "c1 = c" "tr1 = tr @ [EvGetTenants creds (Some e)]" "r1 = Fail e"
        with tr' c' notOk show ?thesis by auto
      next
        fix creds tenants
        assume "allTenants c = []" "r1 = Ok ()" "tr1 = tr @ [EvGetTenants creds None]"
        with tr' c' notOk ok n show ?thesis by auto
      qed
    qed
  qed
qed

theorem short_namespace_rejected_witness:
  "length (mt_namespace (hd request_short)) < 6 \<and>
   mt_config (hd request_short) ''tenant'' = Some (CfgString ''alpha'') \<and>
   fst (CollectMetrics example_world request_short (New :: int collector) []) =
     Fail (IncorrectNamespaceLength 4)"
proof -
  have h1: "hd request_short \<in> set request_short"
    by (simp add: request_short_def)
  have h2: "length (mt_namespace (hd request_short)) < 6"
    by (simp add: request_short_def request_def)
  have cfg: "mt_config (hd request_short) ''tenant'' = Some (CfgString ''alpha'')"
    by (simp add: request_short_def request_def example_admin)
  obtain r c' tr' where
    h3: "CollectMetrics example_world request_short (New :: int collector) [] = (r, c', tr')"
    by (cases "CollectMetrics example_world request_short (New :: int collector) []") auto
  have run: "CollectMetrics example_world request_short (New :: int collector) [] =
      (Fail (IncorrectNamespaceLength 4),
       New\<lparr>allTenants := [(''id-a'', ''alpha''), (''id-b'', ''beta'')]\<rparr>,
       [EvGetTenants example_credentials None])"
    using CollectMetrics_plan_fails [OF scan_request_short [unfolded request_short_def],
        of example_world "New :: int collector" "[]"]
    by (simp add: request_short_def request_def example_admin populate_tenants_example)
  from short_namespace_rejected [OF h1 h2 h3] h2 cfg h3 run
  show ?thesis by simp
qed

text \<open>
  C2 as the specification words it fails on a new collector, whose tenant directory is
  empty: for the request of four segments the directory is listed before the namespace is
  rejected, and when the listing fails its error is returned in place of the one for the
  namespace.
\<close>

theorem short_namespace_listing_counterexample:
  "CollectMetrics example_world request_short (New :: int collector) [] =
     (Fail (IncorrectNamespaceLength 4),
      New\<lparr>allTenants := [(''id-a'', ''alpha''), (''id-b'', ''beta'')]\<rparr>,
      [EvGetTenants example_credentials None]) \<and>
   CollectMetrics directory_down request_short (New :: int collector) [] =
     (Fail (External ''directory down''), New,
      [EvGetTenants example_credentials (Some (External ''directory down''))])"
proof -
  note CM = CollectMetrics_plan_fails [OF scan_request_short [unfolded request_short_def]]
  have a: "CollectMetrics example_world request_short (New :: int collector) [] =
     (Fail (IncorrectNamespaceLength 4),
      New\<lparr>allTenants := [(''id-a'', ''alpha''), (''id-b'', ''beta'')]\<rparr>,
      [EvGetTenants example_credentials None])"
    using CM [of example_world "New :: int collector" "[]"]
    by (simp add: request_short_def request_def example_admin populate_tenants_example)
  have b: "CollectMetrics directory_down request_short (New :: int collector) [] =
     (Fail (External ''directory down''), New,
      [EvGetTenants example_credentials (Some (External ''directory down''))])"
    using CM [of directory_down "New :: int collector" "[]"]
    by (simp add: request_short_def request_def example_admin populate_tenants_directory_down)
  from a b show ?thesis by (rule conjI)
qed

section \<open>Orders, traces and frames\<close>

lemma mset_pick_order: "mset (pick_order ks xs) = mset xs"
proof (induction ks xs rule: pick_order.induct)
  case (1 ks)
  show ?case by simp
next
  case (2 v va)
  show ?case by simp
next
  case (3 k ks v va)
  let ?xs = "v # va"
  let ?i = "k mod length ?xs"
  have i: "?i < length ?xs" by simp
  have "mset ?xs = mset (take ?i ?xs @ ?xs ! ?i # drop (Suc ?i) ?xs)"
    by (rule arg_cong [where f = mset, OF id_take_nth_drop [OF i]])
  also have "\<dots> = add_mset (?xs ! ?i) (mset (take ?i ?xs @ drop (Suc ?i) ?xs))"
    by simp
  finally have split: "mset ?xs = add_mset (?xs ! ?i) (mset (take ?i ?xs @ drop (Suc ?i) ?xs))" .
  have "mset (pick_order (k # ks) ?xs) =
          add_mset (?xs ! ?i) (mset (pick_order ks (take ?i ?xs @ drop (Suc ?i) ?xs)))"
    by (simp add: Let_def)
  also have "\<dots> = add_mset (?xs ! ?i) (mset (take ?i ?xs @ drop (Suc ?i) ?xs))"
    using "3.IH" [of ?i] by simp
  finally show ?case using split by simp
qed

lemma set_pick_order: "set (pick_order ks xs) = set xs"
  using mset_pick_order [of ks xs] by (rule mset_eq_setD)

lemma distinct_pick_order: "distinct (pick_order ks xs) = distinct xs"
  using mset_pick_order [of ks xs] by (rule mset_eq_imp_distinct_iff)

lemma distinct_Add: "distinct s \<Longrightarrow> distinct (Add el s)"
  by (simp add: Add_def)

lemma scan_requests_distinct:
  "scan_requests mts pl = Ok pl' \<Longrightarrow> distinct (collectTenants pl) \<Longrightarrow> distinct (collectTenants pl')"
proof (induction mts arbitrary: pl)
  case Nil
  then show ?case by simp
next
  case (Cons mt mts)
  let ?ns = "mt_namespace mt"
  define pl1 where "pl1 = pl\<lparr>collectTenants := Add (?ns ! 3) (collectTenants pl)\<rparr>"
  define pl2 where "pl2 = (if Contains ?ns ''limits'' then pl1\<lparr>collectLimits := True\<rparr>
                      else if Contains ?ns ''volumes'' then pl1\<lparr>collectVolumes := True\<rparr>
                      else pl1\<lparr>collectSnapshots := True\<rparr>)"
  have step: "scan_requests (mt # mts) pl =
      (if length ?ns < 6 then Fail (IncorrectNamespaceLength (length ?ns)) else scan_requests mts pl2)"
    by (simp add: Let_def pl1_def pl2_def)
  with Cons.prems(1) have run: "scan_requests mts pl2 = Ok pl'"
    by (simp split: if_splits)
  have "collectTenants pl2 = Add (?ns ! 3) (collectTenants pl)"
    by (simp add: pl2_def pl1_def)
  with Cons.prems(2) have "distinct (collectTenants pl2)"
    by (simp add: distinct_Add)
  from Cons.IH [OF run this] show ?case .
qed

lemma authenticate_frame:
  assumes "authenticate w cfg tenant c tr = (r, c1, tr1)"
  shows "allLimits c1 = allLimits c \<and> allTenants c1 = allTenants c \<and>
         (\<exists>evs. tr1 = tr @ evs \<and> (\<forall>ev\<in>set evs. is_auth ev))"
proof (cases "providers c tenant")
  case (Some p)
  with assms show ?thesis by (simp add: authenticate_def)
next
  case None
  show ?thesis
  proof (cases "read_credentials cfg")
    case (Ok creds)
    with assms None show ?thesis
      by (cases "Authenticate w tr creds tenant") (auto simp: authenticate_def)
  next
    case (Fail e)
    with assms None show ?thesis by (simp add: authenticate_def)
  next
    case (Panic p)
    with assms None show ?thesis by (simp add: authenticate_def)
  qed
qed

section \<open>The limits phase\<close>

lemma limits_loop_frame:
  assumes "limits_loop w cfg cl ts c tr launched = (r, c1, tr1, launched1)"
  shows "allLimits c1 = allLimits c \<and> allTenants c1 = allTenants c \<and>
         (\<exists>evs. tr1 = tr @ evs \<and> (\<forall>ev\<in>set evs. is_auth ev)) \<and>
         (\<exists>new. launched1 = launched @ new \<and> snd ` set new \<subseteq> set ts \<and>
                (distinct ts \<longrightarrow> distinct (map snd new)) \<and>
                (\<forall>t\<in>snd ` set new. allLimits c t = None))"
  using assms
proof (induction ts arbitrary: c tr launched)
  case Nil
  then show ?case by simp
next
  case (Cons tenant rest)
  let ?found = "(case allLimits c tenant of None \<Rightarrow> False | Some l \<Rightarrow> True)"
  show ?case
  proof (cases "cl \<and> \<not> ?found")
    case False
    with Cons.prems have "limits_loop w cfg cl rest c tr launched = (r, c1, tr1, launched1)"
      by (simp add: Let_def)
    from Cons.IH [OF this] show ?thesis by auto
  next
    case True
    then have none: "allLimits c tenant = None" by (simp split: option.splits)
    obtain ra ca tra where au: "authenticate w cfg tenant c tr = (ra, ca, tra)"
      by (cases "authenticate w cfg tenant c tr") auto
    from authenticate_frame [OF au] obtain evA where
      fa: "allLimits ca = allLimits c" "allTenants ca = allTenants c"
        "tra = tr @ evA" "\<forall>ev\<in>set evA. is_auth ev"
      by blast
    show ?thesis
    proof (cases ra)
      case (Ok u)
      with Cons.prems True au
      have "limits_loop w cfg cl rest ca tra (launched @ [(providers ca tenant, tenant)]) =
              (r, c1, tr1, launched1)"
        by (simp add: Let_def)
      from Cons.IH [OF this] obtain evs new where
        ih: "allLimits c1 = allLimits ca" "allTenants c1 = allTenants ca"
          "tr1 = tra @ evs" "\<forall>ev\<in>set evs. is_auth ev"
          "launched1 = (launched @ [(providers ca tenant, tenant)]) @ new"
          "snd ` set new \<subseteq> set rest" "distinct rest \<longrightarrow> distinct (map snd new)"
          "\<forall>t\<in>snd ` set new. allLimits ca t = None"
        by blast
      let ?new = "(providers ca tenant, tenant) # new"
      have "launched1 = launched @ ?new" using ih(5) by simp
      moreover have "snd ` set ?new \<subseteq> set (tenant # rest)" using ih(6) by auto
      moreover have "distinct (tenant # rest) \<longrightarrow> distinct (map snd ?new)"
        using ih(6,7) by auto
      moreover have "\<forall>t\<in>snd ` set ?new. allLimits c t = None"
        using ih(8) fa(1) none by auto
      moreover have "tr1 = tr @ (evA @ evs)" using ih(3) fa(3) by simp
      moreover have "\<forall>ev\<in>set (evA @ evs). is_auth ev" using ih(4) fa(4) by auto
      ultimately show ?thesis using ih(1,2) fa(1,2) by metis
    next
      case (Fail e)
      with Cons.prems True au have "c1 = ca" "tr1 = tra" "launched1 = launched"
        by (simp_all add: Let_def)
      with fa show ?thesis by auto
    next
      case (Panic p)
      with Cons.prems True au have "c1 = ca" "tr1 = tra" "launched1 = launched"
        by (simp_all add: Let_def)
      with fa show ?thesis by auto
    qed
  qed
qed

lemma errors_of_Cons:
  "errors_of (ev # evs) = (case event_error ev of None \<Rightarrow> errors_of evs | Some e \<Rightarrow> e # errors_of evs)"
  by (cases "event_error ev") (simp_all add: errors_of_def)

lemma errors_of_Nil: "errors_of [] = []"
  by (simp add: errors_of_def)

lemma errors_of_append: "errors_of (xs @ ys) = errors_of xs @ errors_of ys"
  by (induction xs) (simp_all add: errors_of_Nil errors_of_Cons split: option.splits)

lemma send_errors_of:
  "send err ch @ errors_of evs = ch @ errors_of (EvGetLimits t p err # evs)"
  by (cases err) (simp_all add: send_def errors_of_Cons)

lemma limits_fold:
  assumes "fold (run_limits_task w) ts (c, tr, ch) = (c2, tr2, ch2)"
    and "distinct (map snd ts)"
  shows "service c2 = service c \<and> providers c2 = providers c \<and> allTenants c2 = allTenants c \<and>
    (\<forall>t. t \<notin> snd ` set ts \<longrightarrow> allLimits c2 t = allLimits c t) \<and>
    (\<exists>evs. tr2 = tr @ evs \<and> (\<forall>ev\<in>set evs. is_limits_fetch ev) \<and> ch2 = ch @ errors_of evs \<and>
       (\<forall>t\<in>snd ` set ts. \<exists>p err. EvGetLimits t p err \<in> set evs) \<and>
       (\<forall>pre t p err post. evs = pre @ EvGetLimits t p err # post \<longrightarrow>
          (p, t) \<in> set ts \<and>
          err = snd (GetLimits w (tr @ pre) (service c) p) \<and>
          allLimits c2 t = Some (fst (GetLimits w (tr @ pre) (service c) p))))"
  using assms
proof (induction ts arbitrary: c tr ch)
  case Nil
  then show ?case by (simp add: errors_of_Nil)
next
  case (Cons task ts)
  obtain p t where task: "task = (p, t)" by (cases task) auto
  define limits where "limits = fst (GetLimits w tr (service c) p)"
  define err where "err = snd (GetLimits w tr (service c) p)"
  define ca where "ca = c\<lparr>allLimits := (allLimits c)(t \<mapsto> limits)\<rparr>"
  define ev where "ev = EvGetLimits t p err"
  have step: "run_limits_task w task (c, tr, ch) = (ca, tr @ [ev], send err ch)"
    by (simp add: task limits_def err_def ca_def ev_def split: prod.splits)
  from Cons.prems(1) have run: "fold (run_limits_task w) ts (ca, tr @ [ev], send err ch) = (c2, tr2, ch2)"
    by (simp add: step)
  from Cons.prems(2) have dist: "distinct (map snd ts)" and fresh: "t \<notin> snd ` set ts"
    by (simp_all add: task)
  from Cons.IH [OF run dist] obtain evs where
    ih: "service c2 = service ca" "providers c2 = providers ca" "allTenants c2 = allTenants ca"
      "\<forall>t. t \<notin> snd ` set ts \<longrightarrow> allLimits c2 t = allLimits ca t"
      "tr2 = (tr @ [ev]) @ evs" "\<forall>ev\<in>set evs. is_limits_fetch ev"
      "ch2 = send err ch @ errors_of evs"
      "\<forall>t\<in>snd ` set ts. \<exists>p err. EvGetLimits t p err \<in> set evs"
      "\<forall>pre t p err post. evs = pre @ EvGetLimits t p err # post \<longrightarrow>
          (p, t) \<in> set ts \<and>
          err = snd (GetLimits w ((tr @ [ev]) @ pre) (service ca) p) \<and>
          allLimits c2 t = Some (fst (GetLimits w ((tr @ [ev]) @ pre) (service ca) p))"
    by blast
  have sca: "service ca = service c" "providers ca = providers c" "allTenants ca = allTenants c"
    by (simp_all add: ca_def)
  have frame: "\<forall>t'. t' \<notin> snd ` set (task # ts) \<longrightarrow> allLimits c2 t' = allLimits c t'"
    using ih(4) by (simp add: task ca_def)
  have here: "allLimits c2 t = Some limits"
    using ih(4) fresh by (simp add: ca_def)
  have tr2: "tr2 = tr @ (ev # evs)" using ih(5) by simp
  have kinds: "\<forall>e\<in>set (ev # evs). is_limits_fetch e" using ih(6) by (simp add: ev_def)
  have ch2: "ch2 = ch @ errors_of (ev # evs)"
    unfolding ih(7) ev_def by (rule send_errors_of)
  have all: "\<forall>t'\<in>snd ` set (task # ts). \<exists>p err. EvGetLimits t' p err \<in> set (ev # evs)"
  proof (rule ballI)
    fix t' assume "t' \<in> snd ` set (task # ts)"
    then consider "t' = t" | "t' \<in> snd ` set ts" by (auto simp: task)
    then show "\<exists>p err. EvGetLimits t' p err \<in> set (ev # evs)"
    proof cases
      case 1
      then have "EvGetLimits t' p err \<in> set (ev # evs)" by (simp add: ev_def)
      then show ?thesis by blast
    next
      case 2
      with ih(8) obtain p' err' where "EvGetLimits t' p' err' \<in> set evs" by blast
      then have "EvGetLimits t' p' err' \<in> set (ev # evs)" by simp
      then show ?thesis by blast
    qed
  qed
  have split: "(p', t') \<in> set (task # ts) \<and>
          err' = snd (GetLimits w (tr @ pre) (service c) p') \<and>
          allLimits c2 t' = Some (fst (GetLimits w (tr @ pre) (service c) p'))"
    if eq: "ev # evs = pre @ EvGetLimits t' p' err' # post" for pre t' p' err' post
  proof (cases pre)
    case Nil
    with eq have "t' = t" "p' = p" "err' = err" by (simp_all add: ev_def)
    with Nil here show ?thesis by (simp add: task limits_def err_def)
  next
    case (Cons a pre')
    with eq have a: "a = ev" and evs: "evs = pre' @ EvGetLimits t' p' err' # post" by simp_all
    from ih(9) evs have "(p', t') \<in> set ts \<and>
          err' = snd (GetLimits w ((tr @ [ev]) @ pre') (service ca) p') \<and>
          allLimits c2 t' = Some (fst (GetLimits w ((tr @ [ev]) @ pre') (service ca) p'))"
      by blast
    then show ?thesis by (simp add: Cons a sca)
  qed
  from ih(1,2,3) sca frame tr2 kinds ch2 all split show ?case by (metis (no_types, lifting))
qed

lemma receive_Nil_iff: "(receive ch = None) = (ch = [])"
  by (cases ch) (simp_all add: receive_def)

lemma limits_phase_spec:
  assumes "limits_phase w cfg pl c tr = (r, c2, tr2)"
    and "distinct (collectTenants pl)"
  shows "allTenants c2 = allTenants c \<and>
     (\<forall>t l. allLimits c t = Some l \<longrightarrow> allLimits c2 t = Some l) \<and>
     (\<exists>evA evF. tr2 = tr @ evA @ evF \<and>
        (\<forall>ev\<in>set evA. is_auth ev) \<and> (\<forall>ev\<in>set evF. is_limits_fetch ev) \<and>
        (\<forall>t p err. EvGetLimits t p err \<in> set evF \<longrightarrow> allLimits c t = None) \<and>
        (\<forall>pre t p err post. evF = pre @ EvGetLimits t p err # post \<longrightarrow>
           err = snd (GetLimits w (tr @ evA @ pre) (service c2) p) \<and>
           allLimits c2 t = Some (fst (GetLimits w (tr @ evA @ pre) (service c2) p))) \<and>
        ((\<exists>u. r = Ok u) \<longrightarrow> errors_of evF = []))"
proof -
  define ts where "ts = Elements (Elements_order w tr) (collectTenants pl)"
  have dts: "distinct ts"
    using assms(2) by (simp add: ts_def Elements_def distinct_pick_order)
  obtain r0 c1 tr1 launched where
    loop: "limits_loop w cfg (collectLimits pl) ts c tr [] = (r0, c1, tr1, launched)"
    by (cases "limits_loop w cfg (collectLimits pl) ts c tr []") auto
  define sched where "sched = pick_order (completion_order w tr1) launched"
  obtain cj trj ch where
    join: "fold (run_limits_task w) sched (c1, tr1, []) = (cj, trj, ch)"
    by (cases "fold (run_limits_task w) sched (c1, tr1, [])") auto
  from assms(1) loop join
  have res: "(r, c2, tr2) = (case r0 of Panic p \<Rightarrow> (Panic p, cj, trj)
          | Fail e \<Rightarrow> (Fail e, cj, trj)
          | Ok u \<Rightarrow> (case receive ch of Some e \<Rightarrow> (Fail e, cj, trj) | None \<Rightarrow> (Ok (), cj, trj)))"
    by (simp add: limits_phase_def join_limits_def ts_def sched_def)
  then have c2: "c2 = cj" and tr2: "tr2 = trj"
    and ok: "\<And>u. r = Ok u \<Longrightarrow> ch = []"
    by (auto split: result.splits option.splits simp: receive_Nil_iff [symmetric])
  from limits_loop_frame [OF loop] dts obtain evA where
    lf: "allLimits c1 = allLimits c" "allTenants c1 = allTenants c"
      "tr1 = tr @ evA" "\<forall>ev\<in>set evA. is_auth ev"
      "distinct (map snd launched)" "\<forall>t\<in>snd ` set launched. allLimits c t = None"
    by auto
  have ds: "distinct (map snd sched)"
  proof -
    have "mset (map snd sched) = mset (map snd launched)"
      by (simp add: sched_def mset_pick_order)
    from mset_eq_imp_distinct_iff [OF this] lf(5) show ?thesis by simp
  qed
  have ss: "set sched = set launched"
    by (simp add: sched_def set_pick_order)
  from limits_fold [OF join ds] obtain evF where
    ff: "service cj = service c1" "providers cj = providers c1" "allTenants cj = allTenants c1"
      "\<forall>t. t \<notin> snd ` set sched \<longrightarrow> allLimits cj t = allLimits c1 t"
      "trj = tr1 @ evF" "\<forall>ev\<in>set evF. is_limits_fetch ev" "ch = [] @ errors_of evF"
      "\<forall>pre t p err post. evF = pre @ EvGetLimits t p err # post \<longrightarrow>
          (p, t) \<in> set sched \<and>
          err = snd (GetLimits w (tr1 @ pre) (service c1) p) \<and>
          allLimits cj t = Some (fst (GetLimits w (tr1 @ pre) (service c1) p))"
    by blast
  have keep: "\<forall>t l. allLimits c t = Some l \<longrightarrow> allLimits c2 t = Some l"
  proof (intro allI impI)
    fix t l assume some: "allLimits c t = Some l"
    with lf(6) have "t \<notin> snd ` set sched" unfolding ss by auto
    with ff(4) have "allLimits cj t = allLimits c1 t" by blast
    with some show "allLimits c2 t = Some l" by (simp add: c2 lf(1))
  qed
  have fetched: "\<forall>t p err. EvGetLimits t p err \<in> set evF \<longrightarrow> allLimits c t = None"
  proof (intro allI impI)
    fix t p err assume "EvGetLimits t p err \<in> set evF"
    then obtain pre post where "evF = pre @ EvGetLimits t p err # post"
      by (meson split_list)
    with ff(8) have "(p, t) \<in> set sched" by blast
    then have "t \<in> snd ` set launched" unfolding ss by force
    with lf(6) show "allLimits c t = None" by (rule bspec)
  qed
  have vals: "\<forall>pre t p err post. evF = pre @ EvGetLimits t p err # post \<longrightarrow>
           err = snd (GetLimits w (tr @ evA @ pre) (service c2) p) \<and>
           allLimits c2 t = Some (fst (GetLimits w (tr @ evA @ pre) (service c2) p))"
    using ff(8) by (simp add: c2 ff(1) lf(3))
  have errs: "(\<exists>u. r = Ok u) \<longrightarrow> errors_of evF = []"
    using ok ff(7) by auto
  have "tr2 = tr @ evA @ evF" by (simp add: tr2 ff(5) lf(3))
  moreover have "allTenants c2 = allTenants c" by (simp add: c2 ff(3) lf(2))
  ultimately show ?thesis using keep lf(4) ff(6) fetched vals errs by blast
qed

section \<open>The admin phase\<close>

lemma send_errors_of_event:
  "event_error ev = err \<Longrightarrow> send err ch @ errors_of evs = ch @ errors_of (ev # evs)"
  by (cases err) (simp_all add: send_def errors_of_Cons)

lemma admin_fold:
  assumes "fold (run_admin_task w c p) ts (tr, ch, loc) = (tr2, ch2, loc2)"
  shows "\<exists>evs. tr2 = tr @ evs \<and> (\<forall>ev\<in>set evs. is_admin_fetch ev) \<and>
           ch2 = ch @ errors_of evs \<and> List.map_filter admin_task_of evs = ts"
  using assms
proof (induction ts arbitrary: tr ch loc)
  case Nil
  then show ?case by (simp add: errors_of_Nil)
next
  case (Cons task ts)
  obtain tra cha loca where step: "run_admin_task w c p task (tr, ch, loc) = (tra, cha, loca)"
    by (cases "run_admin_task w c p task (tr, ch, loc)") auto
  have "\<exists>ev. tra = tr @ [ev] \<and> is_admin_fetch ev \<and> cha = send (event_error ev) ch \<and>
              admin_task_of ev = Some task"
  proof (cases task)
    case VolumesTask
    with step show ?thesis by (auto split: prod.splits)
  next
    case SnapshotsTask
    with step show ?thesis by (auto split: prod.splits)
  qed
  then obtain ev where ev: "tra = tr @ [ev]" "is_admin_fetch ev"
    "cha = send (event_error ev) ch" "admin_task_of ev = Some task"
    by blast
  from Cons.prems step have "fold (run_admin_task w c p) ts (tra, cha, loca) = (tr2, ch2, loc2)"
    by simp
  from Cons.IH [OF this] obtain evs where
    ih: "tr2 = tra @ evs" "\<forall>ev\<in>set evs. is_admin_fetch ev" "ch2 = cha @ errors_of evs"
      "List.map_filter admin_task_of evs = ts"
    by blast
  have "tr2 = tr @ (ev # evs)" using ih(1) ev(1) by simp
  moreover have "\<forall>e\<in>set (ev # evs). is_admin_fetch e" using ih(2) ev(2) by simp
  moreover have "ch2 = ch @ errors_of (ev # evs)"
    unfolding ih(3) ev(3) by (rule send_errors_of_event [OF refl])
  moreover have "List.map_filter admin_task_of (ev # evs) = task # ts"
    using ih(4) ev(4) by simp
  ultimately show ?case by blast
qed

lemma receive_hd: "ch \<noteq> [] \<Longrightarrow> receive ch = Some (hd ch)"
  by (cases ch) (simp_all add: receive_def)

lemma admin_phase_spec:
  assumes "admin_phase w cfg admin pl c tr = (r, c1, tr1)"
  shows "allLimits c1 = allLimits c \<and> allTenants c1 = allTenants c \<and>
     (\<exists>evA evF. tr1 = tr @ evA @ evF \<and>
        (\<forall>ev\<in>set evA. is_auth ev) \<and> (\<forall>ev\<in>set evF. is_admin_fetch ev) \<and>
        ((\<exists>loc. r = Ok loc) \<longrightarrow> errors_of evF = []) \<and>
        (errors_of evF \<noteq> [] \<longrightarrow> r = Fail (hd (errors_of evF))) \<and>
        ((\<forall>p. r \<noteq> Panic p) \<longrightarrow> (\<exists>e. r = Fail e) \<or> (\<exists>loc. r = Ok loc)) \<and>
        (evF \<noteq> [] \<or> (\<exists>loc. r = Ok loc) \<longrightarrow>
           mset (List.map_filter admin_task_of evF) = mset (admin_tasks pl)))"
proof -
  obtain ra ca tra where au: "authenticate w cfg admin c tr = (ra, ca, tra)"
    by (cases "authenticate w cfg admin c tr") auto
  from authenticate_frame [OF au] obtain evA where
    fa: "allLimits ca = allLimits c" "allTenants ca = allTenants c"
      "tra = tr @ evA" "\<forall>ev\<in>set evA. is_auth ev"
    by blast
  show ?thesis
  proof (cases ra)
    case (Ok u)
    define sched where "sched = pick_order (completion_order w tra) (admin_tasks pl)"
    obtain trj ch loc where join:
      "fold (run_admin_task w ca (providers ca admin)) sched
         (tra, [], \<lparr>allSnapshots = Map.empty, allVolumes = Map.empty\<rparr>) = (trj, ch, loc)"
      by (cases "fold (run_admin_task w ca (providers ca admin)) sched
         (tra, [], \<lparr>allSnapshots = Map.empty, allVolumes = Map.empty\<rparr>)") auto
    from assms au Ok join
    have res: "(r, c1, tr1) = (case receive ch of Some e \<Rightarrow> (Fail e, ca, trj)
                                 | None \<Rightarrow> (Ok loc, ca, trj))"
      by (simp add: admin_phase_def sched_def Let_def)
    from admin_fold [OF join] obtain evF where
      ff: "trj = tra @ evF" "\<forall>ev\<in>set evF. is_admin_fetch ev" "ch = [] @ errors_of evF"
        "List.map_filter admin_task_of evF = sched"
      by blast
    have ms: "mset (List.map_filter admin_task_of evF) = mset (admin_tasks pl)"
      by (simp add: ff(4) sched_def mset_pick_order)
    from res have c1: "c1 = ca" and tr1: "tr1 = trj"
      by (auto split: option.splits)
    have a: "(\<exists>loc. r = Ok loc) \<longrightarrow> errors_of evF = []"
      using res ff(3) by (auto split: option.splits simp: receive_Nil_iff [symmetric])
    have b: "errors_of evF \<noteq> [] \<longrightarrow> r = Fail (hd (errors_of evF))"
      using res ff(3) by (auto simp: receive_hd)
    have np: "(\<exists>e. r = Fail e) \<or> (\<exists>loc. r = Ok loc)"
      using res by (auto split: option.splits)
    have "tr1 = tr @ evA @ evF" by (simp add: tr1 ff(1) fa(3))
    with fa c1 ff(2) a b np ms show ?thesis by blast
  next
    case (Fail e)
    with assms au have r: "r = Fail e" "c1 = ca" "tr1 = tra"
      by (simp_all add: admin_phase_def)
    show ?thesis
      apply (intro conjI)
        apply (simp add: r fa)
       apply (simp add: r fa)
      apply (rule exI [of _ evA], rule exI [of _ "[]"])
      apply (simp add: r fa errors_of_Nil)
      done
  next
    case (Panic p)
    with assms au have r: "r = Panic p" "c1 = ca" "tr1 = tra"
      by (simp_all add: admin_phase_def)
    show ?thesis
      apply (intro conjI)
        apply (simp add: r fa)
       apply (simp add: r fa)
      apply (rule exI [of _ evA], rule exI [of _ "[]"])
      apply (simp add: r fa errors_of_Nil)
      done
  qed
qed

section \<open>One call of CollectMetrics, taken apart\<close>

lemma new_events_append: "new_events tr (tr @ evs) = evs"
  by (simp add: new_events_def)

lemma populate_tenants_frame:
  assumes "populate_tenants w cfg c tr = (r, c1, tr1)"
  shows "allLimits c1 = allLimits c \<and> (\<exists>evs. tr1 = tr @ evs \<and> (\<forall>ev\<in>set evs. is_listing ev))"
proof -
  from populate_tenants_cases [OF assms] show ?thesis
  proof (elim disjE conjE exE)
    assume "c1 = c" "tr1 = tr"
    then have "tr1 = tr @ []" by simp
    with \<open>c1 = c\<close> show ?thesis by fastforce
  next
    assume "tr1 = tr" "c1 = c"
    then have "tr1 = tr @ []" by simp
    with \<open>c1 = c\<close> show ?thesis by fastforce
  next
    fix creds e assume "c1 = c" "tr1 = tr @ [EvGetTenants creds (Some e)]"
    then show ?thesis by fastforce
  next
    fix creds tenants
    assume "tr1 = tr @ [EvGetTenants creds None]" "c1 = c\<lparr>allTenants := tenants\<rparr>"
    then show ?thesis by fastforce
  qed
qed

lemma CollectMetrics_phases:
  assumes "mt_config mt0 ''tenant'' = Some (CfgString admin)"
    and "populate_tenants w (mt_config mt0) c tr = (Ok u, c1, tr1)"
    and "scan_requests (mt0 # rest) empty_plan = Ok pl"
  shows "CollectMetrics w (mt0 # rest) c tr =
     (case admin_phase w (mt_config mt0) admin pl c1 tr1 of
        (Panic p, c2, tr2) \<Rightarrow> (Panic p, c2, tr2)
      | (Fail e, c2, tr2) \<Rightarrow> (Fail e, c2, tr2)
      | (Ok loc, c2, tr2) \<Rightarrow>
          (case limits_phase w (mt_config mt0) pl c2 tr2 of
             (Panic p, c3, tr3) \<Rightarrow> (Panic p, c3, tr3)
           | (Fail e, c3, tr3) \<Rightarrow> (Fail e, c3, tr3)
           | (Ok u, c3, tr3) \<Rightarrow> (Ok (projection w c3 loc tr3 (mt0 # rest)), c3, tr3)))"
  unfolding CollectMetrics_def list.case GetConfigItem_def assms option.case sum.case
    as_string.simps prod.case result.case
  by (rule refl)

lemma CollectMetrics_stages:
  assumes "CollectMetrics w mts c tr = (r, c', tr')"
  shows "((\<forall>ms. r \<noteq> Ok ms) \<and> allLimits c' = allLimits c \<and>
          (\<exists>evs. tr' = tr @ evs \<and> (\<forall>ev\<in>set evs. is_listing ev))) \<or>
         (\<exists>mt0 rest admin u c1 tr1 pl.
            mts = mt0 # rest \<and> mt_config mt0 ''tenant'' = Some (CfgString admin) \<and>
            populate_tenants w (mt_config mt0) c tr = (Ok u, c1, tr1) \<and>
            scan_requests (mt0 # rest) empty_plan = Ok pl)"
proof (cases mts)
  case Nil
  with assms have "r = Panic IndexOutOfRange" "c' = c" "tr' = tr @ []"
    by (simp_all add: CollectMetrics_def)
  then show ?thesis by fastforce
next
  case (Cons mt0 rest)
  note mts = Cons
  show ?thesis
  proof (cases "mt_config mt0 ''tenant''")
    case None
    with assms have "r = Fail (ConfigItemMissing ''tenant'')" "c' = c" "tr' = tr @ []"
      by (simp_all add: CollectMetrics_def mts GetConfigItem_def)
    then show ?thesis by fastforce
  next
    case (Some item)
    show ?thesis
    proof (cases "as_string (Some item)")
      case None
      with assms Some have "r = Panic TypeAssertion" "c' = c" "tr' = tr @ []"
        by (simp_all add: CollectMetrics_def mts GetConfigItem_def)
      then show ?thesis by fastforce
    next
      case admin: (Some admin)
      then have item: "item = CfgString admin"
        by (cases item) simp_all
      obtain r1 c1 tr1 where pt: "populate_tenants w (mt_config mt0) c tr = (r1, c1, tr1)"
        by (cases "populate_tenants w (mt_config mt0) c tr") auto
      from populate_tenants_frame [OF pt] obtain evs where
        pf: "allLimits c1 = allLimits c" "tr1 = tr @ evs" "\<forall>ev\<in>set evs. is_listing ev"
        by blast
      have unf: "CollectMetrics w (mt0 # rest) c tr =
          (case r1 of Panic p \<Rightarrow> (Panic p, c1, tr1) | Fail e \<Rightarrow> (Fail e, c1, tr1)
           | Ok u \<Rightarrow> (case scan_requests (mt0 # rest) empty_plan of
                Panic p \<Rightarrow> (Panic p, c1, tr1) | Fail e \<Rightarrow> (Fail e, c1, tr1)
              | Ok pl \<Rightarrow> CollectMetrics w (mt0 # rest) c tr))"
        unfolding CollectMetrics_def list.case GetConfigItem_def Some option.case sum.case
          admin pt prod.case
        by (simp split: result.splits)
      show ?thesis
      proof (cases r1)
        case (Ok u)
        show ?thesis
        proof (cases "scan_requests (mt0 # rest) empty_plan")
          case pl: (Ok pl)
          from Some item pt Ok pl mts show ?thesis by blast
        next
          case (Fail e)
          with unf Ok assms mts have "r = Fail e" "c' = c1" "tr' = tr1" by simp_all
          with pf show ?thesis by fastforce
        next
          case (Panic p)
          with unf Ok assms mts have "r = Panic p" "c' = c1" "tr' = tr1" by simp_all
          with pf show ?thesis by fastforce
        qed
      next
        case (Fail e)
        with unf assms mts have "r = Fail e" "c' = c1" "tr' = tr1" by simp_all
        with pf show ?thesis by fastforce
      next
        case (Panic p)
        with unf assms mts have "r = Panic p" "c' = c1" "tr' = tr1" by simp_all
        with pf show ?thesis by fastforce
      qed
    qed
  qed
qed

lemma split_after_auth:
  assumes "\<forall>ev\<in>set xs. is_auth ev"
    and "xs @ ys = pre @ EvGetLimits t p err # post"
  shows "\<exists>pre'. pre = xs @ pre' \<and> ys = pre' @ EvGetLimits t p err # post"
proof -
  from assms(2) obtain us where
    us: "(xs = pre @ us \<and> us @ ys = EvGetLimits t p err # post) \<or>
         (xs @ us = pre \<and> ys = us @ EvGetLimits t p err # post)"
    unfolding append_eq_append_conv2 by blast
  then show ?thesis
  proof
    assume a: "xs = pre @ us \<and> us @ ys = EvGetLimits t p err # post"
    show ?thesis
    proof (cases us)
      case Nil
      with a show ?thesis by simp
    next
      case (Cons x us')
      with a have "EvGetLimits t p err \<in> set xs" by simp
      with assms(1) have "is_auth (EvGetLimits t p err)" by blast
      then show ?thesis by simp
    qed
  next
    assume "xs @ us = pre \<and> ys = us @ EvGetLimits t p err # post"
    then show ?thesis by blast
  qed
qed

lemma filter_limits_after_auth:
  assumes "\<forall>ev\<in>set xs. is_auth ev" and "\<forall>ev\<in>set ys. is_limits_fetch ev"
  shows "filter is_limits_fetch (xs @ ys) = ys"
proof -
  have "\<And>ev. is_auth ev \<Longrightarrow> \<not> is_limits_fetch ev"
    by (case_tac ev) simp_all
  with assms(1) have "filter is_limits_fetch xs = []" by (simp add: filter_empty_conv)
  moreover from assms(2) have "filter is_limits_fetch ys = ys" by (simp add: filter_id_conv)
  ultimately show ?thesis by simp
qed

lemma limits_event_not_auth:
  assumes "\<forall>ev\<in>set xs. is_auth ev" and "EvGetLimits t p err \<in> set (xs @ ys)"
  shows "EvGetLimits t p err \<in> set ys"
proof -
  from assms(1) have "EvGetLimits t p err \<notin> set xs" by fastforce
  with assms(2) show ?thesis by simp
qed

text \<open>
  What one call does, in one statement: the calls it adds to the trace come in three
  runs, the listing and the admin login, the admin fetches, and the limits logins and
  limits fetches; a failed admin fetch ends the call before the limits phase; the limits
  cache only grows, and holds whatever each limits fetch returned.
\<close>

lemma CollectMetrics_spec:
  assumes "CollectMetrics w mts c tr = (r, c', tr')"
  shows "\<exists>evP evA evL. tr' = tr @ evP @ evA @ evL \<and>
    (\<forall>ev\<in>set evP. is_listing ev \<or> is_auth ev) \<and>
    (\<forall>ev\<in>set evA. is_admin_fetch ev) \<and>
    (\<forall>ev\<in>set evL. is_auth ev \<or> is_limits_fetch ev) \<and>
    (errors_of evA \<noteq> [] \<longrightarrow>
       r = Fail (hd (errors_of evA)) \<and> evL = [] \<and> allLimits c' = allLimits c) \<and>
    (evA \<noteq> [] \<longrightarrow>
       (\<exists>pl. scan_requests mts empty_plan = Ok pl \<and>
             mset (List.map_filter admin_task_of evA) = mset (admin_tasks pl))) \<and>
    (\<forall>t l. allLimits c t = Some l \<longrightarrow> allLimits c' t = Some l) \<and>
    (\<forall>t p err. EvGetLimits t p err \<in> set evL \<longrightarrow> allLimits c t = None) \<and>
    (\<forall>pre t p err post. evL = pre @ EvGetLimits t p err # post \<longrightarrow>
       err = snd (GetLimits w (tr @ evP @ evA @ pre) (service c') p) \<and>
       allLimits c' t = Some (fst (GetLimits w (tr @ evP @ evA @ pre) (service c') p))) \<and>
    (\<forall>ms. r = Ok ms \<longrightarrow>
       errors_of evA = [] \<and> errors_of (filter is_limits_fetch evL) = [] \<and>
       (\<exists>loc. ms = projection w c' loc tr' mts))"
  (is "\<exists>evP evA evL. ?S evP evA evL")
proof -
  from CollectMetrics_stages [OF assms] show ?thesis
  proof (elim disjE conjE exE)
    fix evs
    assume early: "\<forall>ms. r \<noteq> Ok ms" "allLimits c' = allLimits c" "tr' = tr @ evs"
      "\<forall>ev\<in>set evs. is_listing ev"
    have tr0: "tr' = tr @ evs @ [] @ []" using early(3) by simp
    have kP0: "\<forall>ev\<in>set evs. is_listing ev \<or> is_auth ev" using early(4) by blast
    have "?S evs [] []"
      apply (intro conjI)
               apply (rule tr0)
              apply (rule kP0)
             apply simp
            apply simp
           apply (simp add: errors_of_Nil)
          apply simp
         apply (simp add: early(2))
        apply simp
       apply simp
      apply (simp add: early(1))
      done
    then show ?thesis by (intro exI)
  next
    fix mt0 rest admin u c1 tr1 pl
    assume mts: "mts = mt0 # rest"
      and adm: "mt_config mt0 ''tenant'' = Some (CfgString admin)"
      and pt: "populate_tenants w (mt_config mt0) c tr = (Ok u, c1, tr1)"
      and scan: "scan_requests (mt0 # rest) empty_plan = Ok pl"
    from populate_tenants_frame [OF pt] obtain evs0 where
      pf: "allLimits c1 = allLimits c" "tr1 = tr @ evs0" "\<forall>ev\<in>set evs0. is_listing ev"
      by blast
    have dist: "distinct (collectTenants pl)"
      using scan_requests_distinct [OF scan] by (simp add: empty_plan_def)
    obtain ra c2 tr2 where ap: "admin_phase w (mt_config mt0) admin pl c1 tr1 = (ra, c2, tr2)"
      by (cases "admin_phase w (mt_config mt0) admin pl c1 tr1") auto
    from admin_phase_spec [OF ap] obtain evAa evAf where
      af: "allLimits c2 = allLimits c1" "tr2 = tr1 @ evAa @ evAf"
        "\<forall>ev\<in>set evAa. is_auth ev" "\<forall>ev\<in>set evAf. is_admin_fetch ev"
        "(\<exists>loc. ra = Ok loc) \<longrightarrow> errors_of evAf = []"
        "errors_of evAf \<noteq> [] \<longrightarrow> ra = Fail (hd (errors_of evAf))"
        "evAf \<noteq> [] \<or> (\<exists>loc. ra = Ok loc) \<longrightarrow>
           mset (List.map_filter admin_task_of evAf) = mset (admin_tasks pl)"
      by blast
    note CM = CollectMetrics_phases [OF adm pt scan]
    have kP: "\<forall>ev\<in>set (evs0 @ evAa). is_listing ev \<or> is_auth ev"
      using pf(3) af(3) by auto
    have tasks: "evAf \<noteq> [] \<longrightarrow>
       (\<exists>pl. scan_requests mts empty_plan = Ok pl \<and>
             mset (List.map_filter admin_task_of evAf) = mset (admin_tasks pl))"
      using af(7) scan mts by blast
    show ?thesis
    proof (cases "\<exists>loc. ra = Ok loc")
      case False
      with CM ap assms mts have res: "r = (case ra of Panic p \<Rightarrow> Panic p | Fail e \<Rightarrow> Fail e)"
        "c' = c2" "tr' = tr2"
        by (cases ra; simp)+
      from res(1) False have notOk: "\<forall>ms. r \<noteq> Ok ms"
        by (cases ra) auto
      from res(1) af(6) have fail: "errors_of evAf \<noteq> [] \<longrightarrow> r = Fail (hd (errors_of evAf))"
        by auto
      have tr': "tr' = tr @ (evs0 @ evAa) @ evAf @ []"
        by (simp add: res(3) af(2) pf(2))
      have same: "allLimits c' = allLimits c"
        by (simp add: res(2) af(1) pf(1))
      have errA: "errors_of evAf \<noteq> [] \<longrightarrow>
          r = Fail (hd (errors_of evAf)) \<and> ([] :: event list) = [] \<and> allLimits c' = allLimits c"
        using fail same by simp
      have "?S (evs0 @ evAa) evAf []"
        apply (intro conjI)
                 apply (rule tr')
                apply (rule kP)
               apply (rule af(4))
              apply simp
             apply (rule errA)
            apply (rule tasks)
           apply (simp add: same)
          apply simp
         apply simp
        apply (simp add: notOk)
        done
      then show ?thesis by (intro exI)
    next
      case True
      then obtain loc where ok: "ra = Ok loc" by blast
      with af(5) have noerr: "errors_of evAf = []" by blast
      obtain rl c3 tr3 where lp: "limits_phase w (mt_config mt0) pl c2 tr2 = (rl, c3, tr3)"
        by (cases "limits_phase w (mt_config mt0) pl c2 tr2") auto
      from limits_phase_spec [OF lp dist] obtain evLa evLf where
        lf: "\<forall>t l. allLimits c2 t = Some l \<longrightarrow> allLimits c3 t = Some l"
          "tr3 = tr2 @ evLa @ evLf"
          "\<forall>ev\<in>set evLa. is_auth ev" "\<forall>ev\<in>set evLf. is_limits_fetch ev"
          "\<forall>t p err. EvGetLimits t p err \<in> set evLf \<longrightarrow> allLimits c2 t = None"
          "\<forall>pre t p err post. evLf = pre @ EvGetLimits t p err # post \<longrightarrow>
             err = snd (GetLimits w (tr2 @ evLa @ pre) (service c3) p) \<and>
             allLimits c3 t = Some (fst (GetLimits w (tr2 @ evLa @ pre) (service c3) p))"
          "(\<exists>u. rl = Ok u) \<longrightarrow> errors_of evLf = []"
        by blast
      from CM ap ok lp assms mts
      have res: "r = (case rl of Panic p \<Rightarrow> Panic p | Fail e \<Rightarrow> Fail e
                       | Ok u \<Rightarrow> Ok (projection w c3 loc tr3 mts))"
        "c' = c3" "tr' = tr3"
        by (cases rl; simp)+
      have tr': "tr' = tr @ (evs0 @ evAa) @ evAf @ (evLa @ evLf)"
        by (simp add: res(3) lf(2) af(2) pf(2))
      have kL: "\<forall>ev\<in>set (evLa @ evLf). is_auth ev \<or> is_limits_fetch ev"
        using lf(3,4) by auto
      have keep: "\<forall>t l. allLimits c t = Some l \<longrightarrow> allLimits c' t = Some l"
        using lf(1) by (simp add: res(2) af(1) pf(1))
      have fetched: "\<forall>t p err. EvGetLimits t p err \<in> set (evLa @ evLf) \<longrightarrow> allLimits c t = None"
      proof (intro allI impI)
        fix t p err assume "EvGetLimits t p err \<in> set (evLa @ evLf)"
        from limits_event_not_auth [OF lf(3) this] lf(5)
        have "allLimits c2 t = None" by blast
        then show "allLimits c t = None" by (simp add: af(1) pf(1))
      qed
      have vals: "\<forall>pre t p err post. evLa @ evLf = pre @ EvGetLimits t p err # post \<longrightarrow>
         err = snd (GetLimits w (tr @ (evs0 @ evAa) @ evAf @ pre) (service c') p) \<and>
         allLimits c' t = Some (fst (GetLimits w (tr @ (evs0 @ evAa) @ evAf @ pre) (service c') p))"
      proof (intro allI impI)
        fix pre t p err post
        assume "evLa @ evLf = pre @ EvGetLimits t p err # post"
        from split_after_auth [OF lf(3) this] obtain pre' where
          pre: "pre = evLa @ pre'" and evLf: "evLf = pre' @ EvGetLimits t p err # post"
          by blast
        from lf(6) evLf
        have "err = snd (GetLimits w (tr2 @ evLa @ pre') (service c3) p) \<and>
              allLimits c3 t = Some (fst (GetLimits w (tr2 @ evLa @ pre') (service c3) p))"
          by blast
        moreover have "tr2 @ evLa @ pre' = tr @ (evs0 @ evAa) @ evAf @ pre"
          by (simp add: pre af(2) pf(2))
        ultimately
        show "err = snd (GetLimits w (tr @ (evs0 @ evAa) @ evAf @ pre) (service c') p) \<and>
         allLimits c' t = Some (fst (GetLimits w (tr @ (evs0 @ evAa) @ evAf @ pre) (service c') p))"
          by (simp add: res(2))
      qed
      have okr: "\<forall>ms. r = Ok ms \<longrightarrow>
         errors_of evAf = [] \<and> errors_of (filter is_limits_fetch (evLa @ evLf)) = [] \<and>
         (\<exists>loc. ms = projection w c' loc tr' mts)"
      proof (intro allI impI)
        fix ms assume r: "r = Ok ms"
        with res(1) have rl: "\<exists>u. rl = Ok u" and ms: "ms = projection w c3 loc tr3 mts"
          by (cases rl; simp)+
        from rl lf(7) have "errors_of evLf = []" by blast
        then have "errors_of (filter is_limits_fetch (evLa @ evLf)) = []"
          unfolding filter_limits_after_auth [OF lf(3,4)] .
        moreover have "\<exists>loc. ms = projection w c' loc tr' mts"
          using ms res(2,3) by blast
        ultimately show "errors_of evAf = [] \<and>
            errors_of (filter is_limits_fetch (evLa @ evLf)) = [] \<and>
            (\<exists>loc. ms = projection w c' loc tr' mts)"
          using noerr by blast
      qed
      have "?S (evs0 @ evAa) evAf (evLa @ evLf)"
        apply (intro conjI)
                 apply (rule tr')
                apply (rule kP)
               apply (rule af(4))
              apply (rule kL)
             apply (simp add: noerr)
            apply (rule tasks)
           apply (rule keep)
          apply (rule fetched)
         apply (rule vals)
        apply (rule okr)
        done
      then show ?thesis by (intro exI)
    qed
  qed
qed

section \<open>Example runs\<close>

lemma scan_request_A: "scan_requests request_A empty_plan = Ok plan_A"
  by (simp add: request_A_def request_def empty_plan_def plan_A_def Add_def Contains_def)

lemma request_config: "mt_config (request namespace) = example_config"
  by (simp add: request_def)

lemmas example_run_defs =
  authenticate_def example_credentials_read admin_tasks_def plan_A_def Elements_def
  collector_1_def collector_2_def collector_3_def New_def trace_1_def trace_2_def trace_3_def
  receive_def send_def store_counts_def tenant_name_def join_limits_def

lemma populate_example_world:
  "populate_tenants example_world example_config (New :: int collector) [] =
     (Ok (), collector_1, trace_1)"
  by (simp add: populate_tenants_example collector_1_def trace_1_def)

lemma populate_volumes_down:
  "populate_tenants volumes_down example_config (New :: int collector) [] =
     (Ok (), collector_1, trace_1)"
  by (simp add: populate_tenants_def getTenants_def example_credentials_read New_def
      volumes_down_def example_world_def collector_1_def trace_1_def)


lemma admin_example_world:
  "admin_phase example_world example_config ''alpha'' plan_A collector_1 trace_1 =
     (Ok \<lparr>allSnapshots = Map.empty, allVolumes = [''alpha'' \<mapsto> 7]\<rparr>, collector_2,
      trace_2 @ [EvGetVolumes (Some (Provider 1)) None])"
  by (simp add: admin_phase_def example_run_defs example_world_def)

lemma admin_volumes_down:
  "admin_phase volumes_down example_config ''alpha'' plan_A collector_1 trace_1 =
     (Fail (External ''volumes down''), collector_2,
      trace_2 @ [EvGetVolumes (Some (Provider 1)) (Some (External ''volumes down''))])"
  by (simp add: admin_phase_def example_run_defs volumes_down_def example_world_def)


lemma limits_example_world:
  "limits_phase example_world example_config plan_A collector_2
      (trace_2 @ [EvGetVolumes (Some (Provider 1)) None]) =
     (Ok (), collector_3\<lparr>allLimits := [''alpha'' \<mapsto> 50, ''beta'' \<mapsto> 50]\<rparr>,
      trace_3 @ [EvGetLimits ''alpha'' (Some (Provider 1)) None,
                 EvGetLimits ''beta'' (Some (Provider 2)) None])"
  by (simp add: limits_phase_def example_run_defs example_world_def)


lemma request_A_phases:
  assumes "populate_tenants w example_config (New :: int collector) [] = (Ok (), c1, tr1)"
  shows "CollectMetrics w request_A New [] =
     (case admin_phase w example_config ''alpha'' plan_A c1 tr1 of
        (Panic p, c2, tr2) \<Rightarrow> (Panic p, c2, tr2)
      | (Fail e, c2, tr2) \<Rightarrow> (Fail e, c2, tr2)
      | (Ok loc, c2, tr2) \<Rightarrow>
          (case limits_phase w example_config plan_A c2 tr2 of
             (Panic p, c3, tr3) \<Rightarrow> (Panic p, c3, tr3)
           | (Fail e, c3, tr3) \<Rightarrow> (Fail e, c3, tr3)
           | (Ok u, c3, tr3) \<Rightarrow> (Ok (projection w c3 loc tr3 request_A), c3, tr3)))"
proof -
  let ?mt0 = "request [''intel'', ''openstack'', ''cinder'', ''alpha'', ''volumes'', ''count'']"
  let ?rest = "[request [''intel'', ''openstack'', ''cinder'', ''beta'', ''limits'', ''maxVolumes'']]"
  have A: "request_A = ?mt0 # ?rest" by (simp add: request_A_def)
  have cfg: "mt_config ?mt0 ''tenant'' = Some (CfgString ''alpha'')"
    by (simp add: request_config example_admin)
  have pop: "populate_tenants w (mt_config ?mt0) (New :: int collector) [] = (Ok (), c1, tr1)"
    using assms by (simp add: request_config)
  have scan: "scan_requests (?mt0 # ?rest) empty_plan = Ok plan_A"
    using scan_request_A by (simp add: A)
  show ?thesis
    unfolding A CollectMetrics_phases [OF cfg pop scan] request_config ..
qed

lemma run_example_world:
  "CollectMetrics example_world request_A (New :: int collector) [] =
     (Ok [\<lparr>mt_namespace = [''intel'', ''openstack'', ''cinder'', ''alpha'', ''volumes'', ''count''],
          mt_config = Map.empty, mt_timestamp = 6, mt_data = Some 7\<rparr>,
         \<lparr>mt_namespace = [''intel'', ''openstack'', ''cinder'', ''beta'', ''limits'', ''maxVolumes''],
          mt_config = Map.empty, mt_timestamp = 7, mt_data = Some 50\<rparr>],
      collector_3\<lparr>allLimits := [''alpha'' \<mapsto> 50, ''beta'' \<mapsto> 50]\<rparr>,
      trace_3 @ [EvGetLimits ''alpha'' (Some (Provider 1)) None,
                 EvGetLimits ''beta'' (Some (Provider 2)) None])"
  unfolding request_A_phases [OF populate_example_world] admin_example_world
    limits_example_world prod.case result.case
  by (simp add: projection_def make_metric_def lookup0_def request_A_def request_def
      example_world_def trace_1_def trace_2_def trace_3_def collector_3_def collector_2_def
      collector_1_def New_def)

lemma run_volumes_down:
  "CollectMetrics volumes_down request_A (New :: int collector) [] =
     (Fail (External ''volumes down''), collector_2,
      trace_2 @ [EvGetVolumes (Some (Provider 1)) (Some (External ''volumes down''))])"
  unfolding request_A_phases [OF populate_volumes_down] admin_volumes_down
    prod.case result.case ..


section \<open>The join of the admin phase\<close>

lemma in_errors_of: "(e \<in> set (errors_of evs)) = (\<exists>ev\<in>set evs. event_error ev = Some e)"
  by (induction evs) (auto simp: errors_of_Nil errors_of_Cons split: option.splits)

lemma map_filter_append:
  "List.map_filter f (xs @ ys) = List.map_filter f xs @ List.map_filter f ys"
  by (simp add: map_filter_def)

lemma admin_task_of_other: "\<not> is_admin_fetch ev \<Longrightarrow> admin_task_of ev = None"
  by (cases ev) simp_all

lemma admin_tasks_of_others:
  "\<forall>ev\<in>set evs. \<not> is_admin_fetch ev \<Longrightarrow> List.map_filter admin_task_of evs = []"
  by (induction evs) (simp_all add: admin_task_of_other)

lemma listing_or_auth_kind:
  "is_listing ev \<or> is_auth ev \<Longrightarrow> \<not> is_admin_fetch ev \<and> \<not> is_limits_fetch ev"
  by (cases ev) simp_all

lemma auth_or_limits_kind: "is_auth ev \<or> is_limits_fetch ev \<Longrightarrow> \<not> is_admin_fetch ev"
  by (cases ev) simp_all

lemma admin_fetch_kind: "is_admin_fetch ev \<Longrightarrow> \<not> is_limits_fetch ev"
  by (cases ev) simp_all

text \<open>
  C5. When a volumes or snapshots fetch made by a call comes back with an error, the call
  returns an error, that of one of the failed fetches of the phase, and so no metric. Every
  fetch the plan asked for has been made by then, each once, whether it failed or not;
  the call goes no further, makes no limits fetch and leaves the limits cache as it was.
  What the fetches returned lives in the maps local to the call and goes with them.
\<close>

theorem admin_fetch_failure_fails_call:
  assumes "CollectMetrics w mts c tr = (r, c', tr')"
    and "ev \<in> set (new_events tr tr')" and "is_admin_fetch ev" and "event_error ev = Some e"
  shows "(\<exists>e'. r = Fail e' \<and>
            (\<exists>ev'\<in>set (new_events tr tr'). is_admin_fetch ev' \<and> event_error ev' = Some e')) \<and>
         (\<exists>pl. scan_requests mts empty_plan = Ok pl \<and>
            mset (List.map_filter admin_task_of (new_events tr tr')) = mset (admin_tasks pl)) \<and>
         (\<forall>ev'\<in>set (new_events tr tr'). \<not> is_limits_fetch ev') \<and>
         allLimits c' = allLimits c"
proof -
  from CollectMetrics_spec [OF assms(1)] obtain evP evA evL where
    tr': "tr' = tr @ evP @ evA @ evL"
    and kP: "\<forall>ev\<in>set evP. is_listing ev \<or> is_auth ev"
    and kA: "\<forall>ev\<in>set evA. is_admin_fetch ev"
    and kL: "\<forall>ev\<in>set evL. is_auth ev \<or> is_limits_fetch ev"
    and fail: "errors_of evA \<noteq> [] \<longrightarrow>
       r = Fail (hd (errors_of evA)) \<and> evL = [] \<and> allLimits c' = allLimits c"
    and tasks: "evA \<noteq> [] \<longrightarrow>
       (\<exists>pl. scan_requests mts empty_plan = Ok pl \<and>
             mset (List.map_filter admin_task_of evA) = mset (admin_tasks pl))"
    by blast
  have new: "new_events tr tr' = evP @ evA @ evL"
    by (simp add: tr' new_events_append)
  have "ev \<notin> set evP" using kP assms(3) listing_or_auth_kind by blast
  moreover have "ev \<notin> set evL" using kL assms(3) auth_or_limits_kind by blast
  ultimately have evA: "ev \<in> set evA" using assms(2) by (simp add: new)
  with assms(4) have "e \<in> set (errors_of evA)" unfolding in_errors_of by blast
  then have ne: "errors_of evA \<noteq> []" by auto
  with fail have r: "r = Fail (hd (errors_of evA))" and evL: "evL = []"
    and same: "allLimits c' = allLimits c"
    by simp_all
  from ne have "hd (errors_of evA) \<in> set (errors_of evA)" by simp
  then obtain ev' where ev': "ev' \<in> set evA" "event_error ev' = Some (hd (errors_of evA))"
    unfolding in_errors_of by blast
  have first: "\<exists>e'. r = Fail e' \<and>
      (\<exists>ev'\<in>set (new_events tr tr'). is_admin_fetch ev' \<and> event_error ev' = Some e')"
  proof (intro exI conjI bexI)
    show "r = Fail (hd (errors_of evA))" by (rule r)
    show "is_admin_fetch ev'" using kA ev'(1) by blast
    show "event_error ev' = Some (hd (errors_of evA))" by (rule ev'(2))
    show "ev' \<in> set (new_events tr tr')" using ev'(1) by (simp add: new)
  qed
  have "\<forall>ev\<in>set evP. \<not> is_admin_fetch ev" using kP listing_or_auth_kind by blast
  then have "List.map_filter admin_task_of (new_events tr tr') = List.map_filter admin_task_of evA"
    by (simp add: new evL map_filter_append admin_tasks_of_others)
  with tasks evA have second: "\<exists>pl. scan_requests mts empty_plan = Ok pl \<and>
      mset (List.map_filter admin_task_of (new_events tr tr')) = mset (admin_tasks pl)"
    by auto
  have third: "\<forall>ev'\<in>set (new_events tr tr'). \<not> is_limits_fetch ev'"
    using kP kA listing_or_auth_kind admin_fetch_kind by (auto simp: new evL)
  from first second third same show ?thesis by blast
qed

theorem admin_fetch_failure_fails_call_witness:
  "EvGetVolumes (Some (Provider 1)) (Some (External ''volumes down''))
     \<in> set (new_events [] (snd (snd (CollectMetrics volumes_down request_A (New :: int collector) [])))) \<and>
   fst (CollectMetrics volumes_down request_A (New :: int collector) []) =
     Fail (External ''volumes down'')"
proof -
  let ?ev = "EvGetVolumes (Some (Provider 1)) (Some (External ''volumes down''))"
  have h2: "?ev \<in> set (new_events [] (trace_2 @ [?ev]))"
    by (simp add: new_events_def)
  have h3: "is_admin_fetch ?ev" by simp
  have h4: "event_error ?ev = Some (External ''volumes down'')" by simp
  from admin_fetch_failure_fails_call [OF run_volumes_down h2 h3 h4] h2
  show ?thesis by (simp add: run_volumes_down)
qed

section \<open>The projection\<close>

lemma length_projection: "length (projection w c loc tr mts) = length mts"
  by (simp add: projection_def)

lemma projection_nth:
  "i < length mts \<Longrightarrow> projection w c loc tr mts ! i = make_metric w c loc tr i (mts ! i)"
  by (simp add: projection_def nth_enumerate_eq)

text \<open>
  C6. A call that succeeds returns as many metrics as namespaces were requested, in the
  order of the request; the metric at each position carries the namespace requested at that
  position, the time read for that position, and the value the codec gives, along the
  segments from the fifth on, for the container of the snapshots, the volumes and the cached
  limits of the tenant named by the fourth segment, each read as a Go map read.
\<close>

theorem CollectMetrics_one_metric_per_request:
  fixes w :: "('l::zero, 'v::zero, 's::zero, 'd) world"
  assumes "CollectMetrics w mts c tr = (Ok ms, c', tr')"
  shows "length ms = length mts \<and> map mt_namespace ms = map mt_namespace mts \<and>
    (\<exists>loc :: ('v, 's) locals. \<forall>i<length mts.
       ms ! i =
         \<lparr>mt_namespace = mt_namespace (mts ! i), mt_config = Map.empty,
          mt_timestamp = Now w tr' i,
          mt_data = GetValueByNamespace w
            (lookup0 (allSnapshots loc) (mt_namespace (mts ! i) ! 3),
             lookup0 (allVolumes loc) (mt_namespace (mts ! i) ! 3),
             lookup0 (allLimits c') (mt_namespace (mts ! i) ! 3))
            (drop 4 (mt_namespace (mts ! i)))\<rparr>)"
proof -
  from CollectMetrics_spec [OF assms] obtain loc where ms: "ms = projection w c' loc tr' mts"
    by blast
  have len: "length ms = length mts" by (simp add: ms length_projection)
  have nth: "ms ! i =
         \<lparr>mt_namespace = mt_namespace (mts ! i), mt_config = Map.empty,
          mt_timestamp = Now w tr' i,
          mt_data = GetValueByNamespace w
            (lookup0 (allSnapshots loc) (mt_namespace (mts ! i) ! 3),
             lookup0 (allVolumes loc) (mt_namespace (mts ! i) ! 3),
             lookup0 (allLimits c') (mt_namespace (mts ! i) ! 3))
            (drop 4 (mt_namespace (mts ! i)))\<rparr>" if "i < length mts" for i
    using that by (simp add: ms projection_nth make_metric_def Let_def)
  have "map mt_namespace ms = map mt_namespace mts"
  proof (rule nth_equalityI)
    show "length (map mt_namespace ms) = length (map mt_namespace mts)" by (simp add: len)
    fix i assume "i < length (map mt_namespace ms)"
    then have i: "i < length mts" by (simp add: len)
    then show "map mt_namespace ms ! i = map mt_namespace mts ! i"
      by (simp add: len nth [OF i])
  qed
  moreover have "\<forall>i<length mts. ms ! i =
         \<lparr>mt_namespace = mt_namespace (mts ! i), mt_config = Map.empty,
          mt_timestamp = Now w tr' i,
          mt_data = GetValueByNamespace w
            (lookup0 (allSnapshots loc) (mt_namespace (mts ! i) ! 3),
             lookup0 (allVolumes loc) (mt_namespace (mts ! i) ! 3),
             lookup0 (allLimits c') (mt_namespace (mts ! i) ! 3))
            (drop 4 (mt_namespace (mts ! i)))\<rparr>"
    by (intro allI impI) (rule nth)
  then have "\<exists>loc :: ('v, 's) locals. \<forall>i<length mts. ms ! i =
         \<lparr>mt_namespace = mt_namespace (mts ! i), mt_config = Map.empty,
          mt_timestamp = Now w tr' i,
          mt_data = GetValueByNamespace w
            (lookup0 (allSnapshots loc) (mt_namespace (mts ! i) ! 3),
             lookup0 (allVolumes loc) (mt_namespace (mts ! i) ! 3),
             lookup0 (allLimits c') (mt_namespace (mts ! i) ! 3))
            (drop 4 (mt_namespace (mts ! i)))\<rparr>"
    by (rule exI [where x = loc])
  ultimately show ?thesis using len by (intro conjI)
qed

theorem CollectMetrics_one_metric_per_request_witness:
  "fst (CollectMetrics example_world request_A (New :: int collector) []) =
     Ok [\<lparr>mt_namespace = [''intel'', ''openstack'', ''cinder'', ''alpha'', ''volumes'', ''count''],
          mt_config = Map.empty, mt_timestamp = 6, mt_data = Some 7\<rparr>,
         \<lparr>mt_namespace = [''intel'', ''openstack'', ''cinder'', ''beta'', ''limits'', ''maxVolumes''],
          mt_config = Map.empty, mt_timestamp = 7, mt_data = Some 50\<rparr>] \<and>
   map mt_namespace
     [\<lparr>mt_namespace = [''intel'', ''openstack'', ''cinder'', ''alpha'', ''volumes'', ''count''],
       mt_config = Map.empty, mt_timestamp = 6, mt_data = Some (7 :: int)\<rparr>,
      \<lparr>mt_namespace = [''intel'', ''openstack'', ''cinder'', ''beta'', ''limits'', ''maxVolumes''],
       mt_config = Map.empty, mt_timestamp = 7, mt_data = Some 50\<rparr>] =
     map mt_namespace request_A"
proof -
  note T = CollectMetrics_one_metric_per_request [OF run_example_world]
  from conjunct1 [OF conjunct2 [OF T]] show ?thesis
    by (simp add: run_example_world)
qed

section \<open>The limits cache\<close>


lemma CollectMetrics_keeps_cached:
  assumes "CollectMetrics w mts c tr = (r, c', tr')"
  shows "\<exists>evs. tr' = tr @ evs \<and>
           (\<forall>t l. allLimits c t = Some l \<longrightarrow>
              allLimits c' t = Some l \<and> (\<forall>p err. EvGetLimits t p err \<notin> set evs))"
proof -
  from CollectMetrics_spec [OF assms] obtain evP evA evL where
    tr': "tr' = tr @ evP @ evA @ evL"
    and kP: "\<forall>ev\<in>set evP. is_listing ev \<or> is_auth ev"
    and kA: "\<forall>ev\<in>set evA. is_admin_fetch ev"
    and keep: "\<forall>t l. allLimits c t = Some l \<longrightarrow> allLimits c' t = Some l"
    and fetched: "\<forall>t p err. EvGetLimits t p err \<in> set evL \<longrightarrow> allLimits c t = None"
    by blast
  have "allLimits c' t = Some l \<and> (\<forall>p err. EvGetLimits t p err \<notin> set (evP @ evA @ evL))"
    if some: "allLimits c t = Some l" for t l
  proof (intro conjI allI)
    show "allLimits c' t = Some l" using keep some by blast
    fix p err
    have "EvGetLimits t p err \<notin> set evP" using kP by fastforce
    moreover have "EvGetLimits t p err \<notin> set evA" using kA by fastforce
    moreover have "EvGetLimits t p err \<notin> set evL" using fetched some by fastforce
    ultimately show "EvGetLimits t p err \<notin> set (evP @ evA @ evL)" by simp
  qed
  with tr' show ?thesis by blast
qed

lemma calls_keep_cached:
  assumes "CollectMetrics_calls w reqs c tr = (c', tr')" and "allLimits c t = Some l"
  shows "allLimits c' t = Some l \<and>
         (\<exists>evs. tr' = tr @ evs \<and> (\<forall>p err. EvGetLimits t p err \<notin> set evs))"
  using assms
proof (induction reqs arbitrary: c tr)
  case Nil
  then have "c' = c" "tr' = tr @ []" by simp_all
  with Nil.prems(2) show ?case by fastforce
next
  case (Cons mts reqs)
  obtain r c1 tr1 where call: "CollectMetrics w mts c tr = (r, c1, tr1)"
    by (cases "CollectMetrics w mts c tr") auto
  from CollectMetrics_keeps_cached [OF call] Cons.prems(2) obtain evs1 where
    one: "tr1 = tr @ evs1" "allLimits c1 t = Some l" "\<forall>p err. EvGetLimits t p err \<notin> set evs1"
    by blast
  show ?case
  proof (cases "\<exists>p. r = Panic p")
    case True
    with Cons.prems(1) call have "c' = c1" "tr' = tr1" by auto
    with one show ?thesis by blast
  next
    case False
    with Cons.prems(1) call have "CollectMetrics_calls w reqs c1 tr1 = (c', tr')"
      by (cases r) simp_all
    from Cons.IH [OF this one(2)] obtain evs2 where
      two: "allLimits c' t = Some l" "tr' = tr1 @ evs2" "\<forall>p err. EvGetLimits t p err \<notin> set evs2"
      by blast
    have "tr' = tr @ (evs1 @ evs2)" by (simp add: two(2) one(1))
    moreover have "\<forall>p err. EvGetLimits t p err \<notin> set (evs1 @ evs2)"
      using one(3) two(3) by simp
    ultimately show ?thesis using two(1) by blast
  qed
qed

text \<open>
  C7. A tenant whose limits are in the cache keeps them, unchanged, through any sequence of
  calls on the collector, and none of these calls makes a limits fetch for that tenant.
\<close>

theorem cached_limits_never_refetched:
  assumes "allLimits c t = Some l"
    and "CollectMetrics_calls w reqs c tr = (c', tr')"
  shows "allLimits c' t = Some l \<and> (\<forall>p err. EvGetLimits t p err \<notin> set (new_events tr tr'))"
proof -
  from calls_keep_cached [OF assms(2,1)] obtain evs where
    "allLimits c' t = Some l" "tr' = tr @ evs" "\<forall>p err. EvGetLimits t p err \<notin> set evs"
    by blast
  then show ?thesis by (simp add: new_events_append)
qed

theorem cached_limits_never_refetched_witness:
  "allLimits collector_beta_cached ''beta'' = Some 40 \<and>
   allLimits (fst (CollectMetrics_calls example_world [request_A, request_A]
                     collector_beta_cached [])) ''beta'' = Some 40"
proof -
  have h1: "allLimits collector_beta_cached ''beta'' = Some 40"
    by (simp add: collector_beta_cached_def)
  obtain c' tr' where
    h2: "CollectMetrics_calls example_world [request_A, request_A] collector_beta_cached [] = (c', tr')"
    by (cases "CollectMetrics_calls example_world [request_A, request_A] collector_beta_cached []")
      auto
  from cached_limits_never_refetched [OF h1 h2] h1 h2 show ?thesis by simp
qed

section \<open>A limits fetch that fails\<close>






section \<open>A batch of limits fetches with a failure\<close>




end
